theory Spec2Isabelle
  imports Main "HOL-Library.AList"
begin

section \<open>Strings and numbers as the source uses them\<close>

text \<open>
  \<^verbatim>\<open>s.split(d)\<close> of JavaScript with a one-character separator: the pieces between
  the separators, never an empty array (\<^verbatim>\<open>"".split("/")\<close> is \<^verbatim>\<open>[""]\<close>,
  \<^verbatim>\<open>"a/".split("/")\<close> is \<^verbatim>\<open>["a", ""]\<close>).
\<close>

fun split_on :: "char \<Rightarrow> string \<Rightarrow> string list" where
  "split_on d [] = [[]]"
| "split_on d (c # cs) =
     (if c = d then [] # split_on d cs
      else (case split_on d cs of [] \<Rightarrow> [[c]] | s # ss \<Rightarrow> (c # s) # ss))"

text \<open>\<^verbatim>\<open>arr.pop()\<close>: the last element, \<^verbatim>\<open>undefined\<close> (here \<open>None\<close>) on an empty array.\<close>

definition pop :: "'a list \<Rightarrow> 'a option" where
  "pop xs = (case rev xs of [] \<Rightarrow> None | x # _ \<Rightarrow> Some x)"

text \<open>\<^verbatim>\<open>s.startsWith(".")\<close>.\<close>

definition startsWith_dot :: "string \<Rightarrow> bool" where
  "startsWith_dot s = (case s of [] \<Rightarrow> False | c # _ \<Rightarrow> c = CHR ''.'')"

text \<open>\<^verbatim>\<open>s.toLowerCase()\<close> on ASCII letters.\<close>

definition lower_char :: "char \<Rightarrow> char" where
  "lower_char c =
     (let n = (of_char c :: nat) in if 65 \<le> n \<and> n \<le> 90 then char_of (n + 32) else c)"

definition toLowerCase :: "string \<Rightarrow> string" where
  "toLowerCase s = map lower_char s"

text \<open>
  A JavaScript number that is an integer or \<^verbatim>\<open>NaN\<close> (\<open>None\<close>). The counters of this
  program stay far below \<open>2 ^ 53\<close>, where the arithmetic of doubles is exact.
\<close>

type_synonym jsnum = "int option"

definition js_add :: "jsnum \<Rightarrow> int \<Rightarrow> jsnum" where
  "js_add x k = map_option (\<lambda>v. v + k) x"

definition js_ge0 :: "jsnum \<Rightarrow> bool" where
  "js_ge0 x = (case x of None \<Rightarrow> False | Some v \<Rightarrow> 0 \<le> v)"

definition hex_value :: "char \<Rightarrow> nat option" where
  "hex_value c =
     (let n = (of_char c :: nat) in
      if 48 \<le> n \<and> n \<le> 57 then Some (n - 48)
      else if 97 \<le> n \<and> n \<le> 102 then Some (n - 87)
      else if 65 \<le> n \<and> n \<le> 70 then Some (n - 55)
      else None)"

definition is_hex :: "char \<Rightarrow> bool" where
  "is_hex c = (hex_value c \<noteq> None)"

text \<open>
  \<^verbatim>\<open>parseInt(s, 16)\<close> on a string that starts with its digits: the value of the longest
  prefix of hexadecimal digits, \<^verbatim>\<open>NaN\<close> when there is none. (Leading white space, a sign
  and a \<^verbatim>\<open>0x\<close> prefix, which \<^verbatim>\<open>parseInt\<close> also accepts, do not occur in a hexadecimal
  identifier and are not modelled.)
\<close>

definition parseInt16 :: "string \<Rightarrow> jsnum" where
  "parseInt16 s =
     (let ds = takeWhile is_hex s in
      if ds = [] then None
      else Some (int (foldl (\<lambda>a c. 16 * a + (case hex_value c of None \<Rightarrow> 0 | Some v \<Rightarrow> v)) 0 ds)))"

definition hex_digit :: "nat \<Rightarrow> char" where
  "hex_digit n = (if n < 10 then char_of (48 + n) else char_of (87 + n))"

function hex_of_nat :: "nat \<Rightarrow> string" where
  "hex_of_nat n = (if n < 16 then [hex_digit n] else hex_of_nat (n div 16) @ [hex_digit (n mod 16)])"
  by pat_completeness auto
termination
  by (relation "measure id") auto

declare hex_of_nat.simps [simp del]

function dec_of_nat :: "nat \<Rightarrow> string" where
  "dec_of_nat n = (if n < 10 then [hex_digit n] else dec_of_nat (n div 10) @ [hex_digit (n mod 10)])"
  by pat_completeness auto
termination
  by (relation "measure id") auto

declare dec_of_nat.simps [simp del]

text \<open>\<^verbatim>\<open>x.toString(16)\<close>: lower-case digits, a minus sign before a negative value.\<close>

definition toString16 :: "jsnum \<Rightarrow> string" where
  "toString16 x =
     (case x of None \<Rightarrow> ''NaN''
      | Some v \<Rightarrow> if v < 0 then CHR ''-'' # hex_of_nat (nat (- v)) else hex_of_nat (nat v))"

text \<open>\<^verbatim>\<open>s.padStart(8, "0")\<close>: zeros in front up to length 8, a longer string unchanged.\<close>

definition padStart8 :: "string \<Rightarrow> string" where
  "padStart8 s = replicate (8 - length s) (CHR ''0'') @ s"

section \<open>The remote service as the client sees it\<close>

text \<open>
  The body of an upload response after \<^verbatim>\<open>response.json()\<close>: whether
  \<^verbatim>\<open>data.success === false\<close>, and the fields \<^verbatim>\<open>error\<close>, \<^verbatim>\<open>entity_id\<close>,
  \<^verbatim>\<open>entity_type\<close> when present.
\<close>

record json_body =
  success_false :: bool
  err :: "string option"
  entity_id :: "string option"
  entity_type :: "string option"

text \<open>
  What \<^verbatim>\<open>fetch\<close> gives for a request: it throws (\<open>Threw\<close>), or there is a response with
  \<^verbatim>\<open>response.ok\<close>, the status, the body text and the body parsed as JSON (\<open>None\<close> when
  \<^verbatim>\<open>response.json()\<close> throws).
\<close>

datatype http_reply = Threw | Http bool nat string "json_body option"

record upload_req =
  req_project :: string
  req_folder :: string
  req_name :: string
  req_type :: string
  req_content :: string

text \<open>\<^verbatim>\<open>getProjectInfo\<close>: it throws, or gives \<^verbatim>\<open>rootFolder?.[0]?._id\<close> (absent: \<open>None\<close>).\<close>

datatype info_reply = InfoThrew | Info "string option"

text \<open>A call of the client that throws or returns a value.\<close>

datatype 'a outcome = Throws | Returns 'a

text \<open>An entry of the downloaded archive, as \<^verbatim>\<open>zip.getEntries()\<close> gives it.\<close>

record zip_entry =
  entryName :: string
  isDirectory :: bool
  getData :: string

record project =
  p_id :: string
  p_name :: string

text \<open>
  The service is a state machine of an arbitrary state type \<open>'s\<close>: every request gives a
  reply and the next state, so a reply may depend on everything sent before.
  \<open>get_client\<close> is \<^verbatim>\<open>getClient\<close> (\<open>False\<close>: no session, the command stops);
  \<open>getProjectById\<close> and \<open>getProject\<close> are called with the command's argument, which
  may be \<^verbatim>\<open>undefined\<close> (\<open>None\<close>); \<open>downloadProject\<close> stands for the download and
  the decoding of the archive together.
\<close>

record 's remote =
  project_info :: "'s \<Rightarrow> string \<Rightarrow> info_reply \<times> 's"
  upload :: "'s \<Rightarrow> upload_req \<Rightarrow> http_reply \<times> 's"
  delete_entity :: "'s \<Rightarrow> string \<times> string \<times> string \<Rightarrow> bool \<times> 's"
  get_client :: "'s \<Rightarrow> bool \<times> 's"
  getProjectById :: "'s \<Rightarrow> string option \<Rightarrow> project option outcome \<times> 's"
  getProject :: "'s \<Rightarrow> string option \<Rightarrow> project option outcome \<times> 's"
  downloadProject :: "'s \<Rightarrow> string \<Rightarrow> zip_entry list outcome \<times> 's"

section \<open>Folder resolver (client.ts)\<close>

text \<open>A JavaScript string is truthy when it is not empty.\<close>

definition truthy :: "string option \<Rightarrow> bool" where
  "truthy x = (case x of None \<Rightarrow> False | Some s \<Rightarrow> s \<noteq> [])"

definition computeRootFolderId :: "string \<Rightarrow> string" where
  "computeRootFolderId projectId =
     (let prefix = take 16 projectId;
          suffix = drop 16 projectId;
          counter = parseInt16 suffix;
          newCounter = padStart8 (toString16 (js_add counter (- 1)))
      in prefix @ newCounter)"

definition getRootFolderId :: "'s remote \<Rightarrow> string \<Rightarrow> 's \<Rightarrow> string \<times> 's" where
  "getRootFolderId srv projectId s =
     (case project_info srv s projectId of
        (Info (Some fid), s') \<Rightarrow>
          if fid \<noteq> [] then (fid, s') else (computeRootFolderId projectId, s')
      | (_, s') \<Rightarrow> (computeRootFolderId projectId, s'))"

text \<open>The two loops of \<^verbatim>\<open>probeRootFolderId\<close> that fill \<^verbatim>\<open>candidates\<close>.\<close>

function probe_below :: "string \<Rightarrow> jsnum \<Rightarrow> nat \<Rightarrow> string list \<Rightarrow> string list" where
  "probe_below prefix suffix i candidates =
     (if i \<le> 50 then
        probe_below prefix suffix (i + 1)
          (if js_ge0 (js_add suffix (- int i))
           then candidates @ [prefix @ padStart8 (toString16 (js_add suffix (- int i)))]
           else candidates)
      else candidates)"
  by pat_completeness auto
termination
  by (relation "measure (\<lambda>(prefix, suffix, i, candidates). 51 - i)") auto

declare probe_below.simps [simp del]

function probe_above :: "string \<Rightarrow> jsnum \<Rightarrow> nat \<Rightarrow> string list \<Rightarrow> string list" where
  "probe_above prefix suffix i candidates =
     (if i \<le> 50 then
        probe_above prefix suffix (i + 1)
          (candidates @ [prefix @ padStart8 (toString16 (js_add suffix (int i)))])
      else candidates)"
  by pat_completeness auto
termination
  by (relation "measure (\<lambda>(prefix, suffix, i, candidates). 51 - i)") auto

declare probe_above.simps [simp del]

definition probe_candidates :: "string \<Rightarrow> string list" where
  "probe_candidates projectId =
     (let candidates = [computeRootFolderId projectId];
          prefix = take 16 projectId;
          suffix = parseInt16 (drop 16 projectId);
          candidates = probe_below prefix suffix 2 candidates
      in probe_above prefix suffix 1 candidates)"

text \<open>The probe request for one candidate; \<open>now\<close> is \<^verbatim>\<open>Date.now()\<close>.\<close>

definition probe_req :: "string \<Rightarrow> nat \<Rightarrow> string \<Rightarrow> upload_req" where
  "probe_req projectId now folderId =
     \<lparr>req_project = projectId, req_folder = folderId,
      req_name = ''.olcli-probe-'' @ dec_of_nat now @ ''.tmp'',
      req_type = ''text/plain'', req_content = ''probe''\<rparr>"

text \<open>
  \<^verbatim>\<open>data.success !== false && data.entity_id\<close> of the probe; a \<^verbatim>\<open>fetch\<close> or
  \<^verbatim>\<open>json()\<close> that throws is caught and the loop goes on. The probe does not look at
  \<^verbatim>\<open>response.ok\<close>.
\<close>

definition probe_hit :: "http_reply \<Rightarrow> string option" where
  "probe_hit r =
     (case r of
        Threw \<Rightarrow> None
      | Http ok st txt None \<Rightarrow> None
      | Http ok st txt (Some d) \<Rightarrow>
          if \<not> success_false d \<and> truthy (entity_id d) then entity_id d else None)"

text \<open>
  The loop over the candidates. The result carries the log of the probe uploads sent, in
  order, each with its reply.
\<close>

fun probe_loop ::
  "'s remote \<Rightarrow> string \<Rightarrow> nat \<Rightarrow> string list \<Rightarrow> 's
     \<Rightarrow> string option \<times> (upload_req \<times> http_reply) list \<times> 's" where
  "probe_loop srv projectId now [] s = (None, [], s)"
| "probe_loop srv projectId now (folderId # rest) s =
     (let rq = probe_req projectId now folderId;
          (r, s1) = upload srv s rq
      in case probe_hit r of
           Some eid \<Rightarrow>
             (let (_, s2) = delete_entity srv s1 (projectId, eid, ''doc'')
              in (Some folderId, [(rq, r)], s2))
         | None \<Rightarrow>
             (let (res, lg, s2) = probe_loop srv projectId now rest s1
              in (res, (rq, r) # lg, s2)))"

definition probeRootFolderId ::
  "'s remote \<Rightarrow> string \<Rightarrow> nat \<Rightarrow> 's \<Rightarrow> string option \<times> (upload_req \<times> http_reply) list \<times> 's" where
  "probeRootFolderId srv projectId now s =
     probe_loop srv projectId now (probe_candidates projectId) s"


section \<open>Uploading one file (client.ts)\<close>

definition mimeTypes :: "(string \<times> string) list" where
  "mimeTypes =
     [(''tex'', ''text/x-tex''), (''bib'', ''text/x-bibtex''), (''cls'', ''text/x-tex''),
      (''sty'', ''text/x-tex''), (''png'', ''image/png''), (''jpg'', ''image/jpeg''),
      (''jpeg'', ''image/jpeg''), (''gif'', ''image/gif''), (''pdf'', ''application/pdf''),
      (''svg'', ''image/svg+xml''), (''eps'', ''application/postscript'')]"

text \<open>\<^verbatim>\<open>fileName.split('/').pop() || fileName\<close>: an empty last piece is falsy.\<close>

definition baseName_of :: "string \<Rightarrow> string" where
  "baseName_of fileName =
     (case pop (split_on (CHR ''/'') fileName) of
        None \<Rightarrow> fileName
      | Some b \<Rightarrow> if b \<noteq> [] then b else fileName)"

definition mimeType_of :: "string \<Rightarrow> string" where
  "mimeType_of baseName =
     (let ext = (case pop (split_on (CHR ''.'') baseName) of
                   None \<Rightarrow> [] | Some e \<Rightarrow> toLowerCase e)
      in case map_of mimeTypes ext of
           Some m \<Rightarrow> m
         | None \<Rightarrow> ''application/octet-stream'')"

text \<open>The object \<^verbatim>\<open>tryUpload\<close> resolves to; \<open>None\<close> stands for a thrown exception.\<close>

record try_result =
  tr_success :: bool
  tr_entityId :: "string option"
  tr_entityType :: "string option"
  tr_error :: "string option"

definition try_reply :: "http_reply \<Rightarrow> try_result option" where
  "try_reply r =
     (case r of
        Threw \<Rightarrow> None
      | Http ok st txt body \<Rightarrow>
          if \<not> ok then
            Some \<lparr>tr_success = False, tr_entityId = None, tr_entityType = None,
                  tr_error = Some (dec_of_nat st @ '' - '' @ txt)\<rparr>
          else (case body of
                  None \<Rightarrow> None
                | Some d \<Rightarrow>
                    if success_false d \<and> err d = Some ''folder_not_found'' then
                      Some \<lparr>tr_success = False, tr_entityId = None, tr_entityType = None,
                            tr_error = Some ''folder_not_found''\<rparr>
                    else
                      Some \<lparr>tr_success = \<not> success_false d, tr_entityId = entity_id d,
                            tr_entityType = entity_type d, tr_error = None\<rparr>))"

definition tryUpload ::
  "'s remote \<Rightarrow> string \<Rightarrow> string \<Rightarrow> string \<Rightarrow> string \<Rightarrow> string \<Rightarrow> 's
     \<Rightarrow> try_result option \<times> (upload_req \<times> http_reply) \<times> 's" where
  "tryUpload srv projectId baseName mimeType content fid s =
     (let rq = \<lparr>req_project = projectId, req_folder = fid, req_name = baseName,
                req_type = mimeType, req_content = content\<rparr>;
          (r, s') = upload srv s rq
      in (try_reply r, (rq, r), s'))"

datatype upload_error = Exception | UploadFailed string

record upload_result =
  success :: bool
  entityId :: "string option"
  entityType :: "string option"

text \<open>The end of \<^verbatim>\<open>uploadFile\<close>: throw when \<^verbatim>\<open>!result.success\<close>.\<close>

definition finish_upload :: "try_result \<Rightarrow> upload_error + upload_result" where
  "finish_upload r =
     (if \<not> tr_success r then
        Inl (UploadFailed (''Failed to upload file: '' @
               (case tr_error r of
                  None \<Rightarrow> ''unknown error''
                | Some e \<Rightarrow> if e \<noteq> [] then e else ''unknown error'')))
      else Inr \<lparr>success = tr_success r, entityId = tr_entityId r, entityType = tr_entityType r\<rparr>)"

text \<open>
  \<^verbatim>\<open>uploadFile\<close>. Besides the result and the next state of the service it gives the
  uploads of the file that were sent (\<^verbatim>\<open>tryUpload\<close> calls, in order, with their
  replies) and the log of \<^verbatim>\<open>probeRootFolderId\<close> when that was called.
\<close>

definition uploadFile ::
  "'s remote \<Rightarrow> nat \<Rightarrow> string \<Rightarrow> string option \<Rightarrow> string \<Rightarrow> string \<Rightarrow> 's
     \<Rightarrow> (upload_error + upload_result) \<times> (upload_req \<times> http_reply) list
         \<times> (upload_req \<times> http_reply) list option \<times> 's" where
  "uploadFile srv now projectId folderId fileName content s =
     (let (targetFolderId, s0) =
            (case folderId of
               Some f \<Rightarrow> if f \<noteq> [] then (f, s) else getRootFolderId srv projectId s
             | None \<Rightarrow> getRootFolderId srv projectId s);
          baseName = baseName_of fileName;
          mimeType = mimeType_of baseName;
          (result, a1, s1) = tryUpload srv projectId baseName mimeType content targetFolderId s0
      in case result of
           None \<Rightarrow> (Inl Exception, [a1], None, s1)
         | Some r1 \<Rightarrow>
             if \<not> tr_success r1 \<and> tr_error r1 = Some ''folder_not_found'' then
               (let (probedFolderId, plog, s2) = probeRootFolderId srv projectId now s1
                in case probedFolderId of
                     None \<Rightarrow> (finish_upload r1, [a1], Some plog, s2)
                   | Some p \<Rightarrow>
                       if p \<noteq> [] \<and> p \<noteq> targetFolderId then
                         (let (result2, a2, s3) =
                                tryUpload srv projectId baseName mimeType content p s2
                          in case result2 of
                               None \<Rightarrow> (Inl Exception, [a1, a2], Some plog, s3)
                             | Some r2 \<Rightarrow> (finish_upload r2, [a1, a2], Some plog, s3))
                       else (finish_upload r1, [a1], Some plog, s2))
             else (finish_upload r1, [a1], None, s1))"


section \<open>The local directory\<close>

text \<open>
  The target directory is a tree: a file has a modification time (milliseconds) and a
  content, a directory has a modification time and its entries in the order
  \<^verbatim>\<open>readdirSync\<close> lists them. The file \<^verbatim>\<open>.olcli.json\<close> is kept apart, as the record
  the program reads and writes.
\<close>

datatype node = File nat string | Dir nat "(string \<times> node) list"

datatype fs_error = EISDIR | ENOTDIR | ENOENT | EEXIST

text \<open>
  \<^verbatim>\<open>join(targetDir, p)\<close> as the names below the target directory: the pieces of \<open>p\<close>
  between slashes, without the empty ones and the \<^verbatim>\<open>.\<close> ones, which \<^verbatim>\<open>join\<close>
  normalises away. (A name with a \<^verbatim>\<open>..\<close> piece leaves the tree and is not modelled.)
  \<^verbatim>\<open>dirname\<close> of such a path is \<open>butlast\<close>.
\<close>

definition segments :: "string \<Rightarrow> string list" where
  "segments p = filter (\<lambda>x. x \<noteq> [] \<and> x \<noteq> ''.'') (split_on (CHR ''/'') p)"

fun lookup :: "string list \<Rightarrow> node \<Rightarrow> node option" where
  "lookup [] n = Some n"
| "lookup (d # ds) (File m c) = None"
| "lookup (d # ds) (Dir m es) = (case map_of es d of None \<Rightarrow> None | Some ch \<Rightarrow> lookup ds ch)"

definition existsSync :: "string list \<Rightarrow> node \<Rightarrow> bool" where
  "existsSync ps n = (lookup ps n \<noteq> None)"

text \<open>\<^verbatim>\<open>statSync(p).mtime\<close> of an existing path.\<close>

fun mtime :: "node \<Rightarrow> nat" where
  "mtime (File m c) = m"
| "mtime (Dir m es) = m"

definition readFileSync :: "string list \<Rightarrow> node \<Rightarrow> fs_error + string" where
  "readFileSync ps n =
     (case lookup ps n of
        None \<Rightarrow> Inl ENOENT
      | Some (File m c) \<Rightarrow> Inr c
      | Some (Dir m es) \<Rightarrow> Inl EISDIR)"

fun new_dirs :: "string list \<Rightarrow> nat \<Rightarrow> node" where
  "new_dirs [] t = Dir t []"
| "new_dirs (d # ds) t = Dir t [(d, new_dirs ds t)]"

text \<open>
  \<^verbatim>\<open>mkdirSync(p, { recursive: true })\<close> at time \<open>t\<close>: the missing directories are
  made; a file on the way is an error. A directory that gets a new entry gets the time.
\<close>

fun mkdirSync :: "string list \<Rightarrow> nat \<Rightarrow> node \<Rightarrow> fs_error + node" where
  "mkdirSync [] t n = (case n of Dir m es \<Rightarrow> Inr n | File m c \<Rightarrow> Inl EEXIST)"
| "mkdirSync (d # ds) t (File m c) = Inl ENOTDIR"
| "mkdirSync (d # ds) t (Dir m es) =
     (case map_of es d of
        None \<Rightarrow> Inr (Dir t (AList.update d (new_dirs ds t) es))
      | Some ch \<Rightarrow>
          (case mkdirSync ds t ch of
             Inl e \<Rightarrow> Inl e
           | Inr ch' \<Rightarrow> Inr (Dir m (AList.update d ch' es))))"

text \<open>
  \<^verbatim>\<open>writeFileSync(p, c)\<close> at time \<open>t\<close>: the file is made or replaced and gets the
  time; the directory of the file must exist, and the path must not be a directory.
\<close>

fun writeFileSync :: "string list \<Rightarrow> nat \<Rightarrow> string \<Rightarrow> node \<Rightarrow> fs_error + node" where
  "writeFileSync [] t c n = (case n of File m x \<Rightarrow> Inr (File t c) | Dir m es \<Rightarrow> Inl EISDIR)"
| "writeFileSync (d # ds) t c (File m x) = Inl ENOTDIR"
| "writeFileSync (d # ds) t c (Dir m es) =
     (case map_of es d of
        None \<Rightarrow> if ds = [] then Inr (Dir t (AList.update d (File t c) es)) else Inl ENOENT
      | Some ch \<Rightarrow>
          (case writeFileSync ds t c ch of
             Inl e \<Rightarrow> Inl e
           | Inr ch' \<Rightarrow> Inr (Dir m (AList.update d ch' es))))"

text \<open>The content of \<^verbatim>\<open>.olcli.json\<close>; a time stamp that is absent is \<open>None\<close>.\<close>

record meta =
  m_projectId :: string
  m_projectName :: string
  m_lastPull :: "nat option"
  m_lastPush :: "nat option"
  m_lastSync :: "nat option"

text \<open>
  The world of one command: the tree of the target directory, \<^verbatim>\<open>.olcli.json\<close> when it
  exists, and the clock. A command reads the clock where the source says
  \<^verbatim>\<open>new Date()\<close> and where it writes a file; the clock does not move during a command
  and moves between commands by \<open>advance\<close>.
\<close>

record world =
  root :: node
  meta_file :: "meta option"
  clock :: nat

definition advance :: "nat \<Rightarrow> world \<Rightarrow> world" where
  "advance d w = w\<lparr>clock := clock w + d\<rparr>"


section \<open>Commands (the sync commands of the command-line program)\<close>

datatype cli_error =
    NoProjectSpecified
  | ClientFailed
  | LookupFailed
  | ProjectNotFound
  | DownloadFailed
  | FsError fs_error
  | UploadError upload_error

text \<open>\<^verbatim>\<open>getProjectById\<close>, then \<^verbatim>\<open>getProject\<close>, as pull, push and sync all do.\<close>

definition resolve_project ::
  "'s remote \<Rightarrow> string option \<Rightarrow> 's \<Rightarrow> (cli_error + project) \<times> 's" where
  "resolve_project srv name s =
     (case getProjectById srv s name of
        (Throws, s1) \<Rightarrow> (Inl LookupFailed, s1)
      | (Returns (Some proj), s1) \<Rightarrow> (Inr proj, s1)
      | (Returns None, s1) \<Rightarrow>
          (case getProject srv s1 name of
             (Throws, s2) \<Rightarrow> (Inl LookupFailed, s2)
           | (Returns None, s2) \<Rightarrow> (Inl ProjectNotFound, s2)
           | (Returns (Some proj), s2) \<Rightarrow> (Inr proj, s2)))"

subsection \<open>pull\<close>

record pull_counts =
  fileCount :: nat
  skippedCount :: nat
  skippedFiles :: "string list"

text \<open>
  One turn of the extraction loop of pull. \<open>Inl\<close> is an exception of the file system,
  which leaves the loop.
\<close>

definition pull_entry ::
  "bool \<Rightarrow> nat option \<Rightarrow> nat \<Rightarrow> zip_entry \<Rightarrow> node \<times> pull_counts
     \<Rightarrow> fs_error + node \<times> pull_counts" where
  "pull_entry force lastPull now entry st =
     (let (tree, cnt) = st in
      if isDirectory entry then Inr st
      else
        let filePath = segments (entryName entry);
            fileDir = butlast filePath
        in if \<not> force \<and> existsSync filePath tree \<and> lastPull \<noteq> None
              \<and> (case lookup filePath tree of
                    Some n \<Rightarrow> (case lastPull of Some lp \<Rightarrow> lp < mtime n | None \<Rightarrow> False)
                  | None \<Rightarrow> False)
           then Inr (tree, cnt\<lparr>skippedCount := skippedCount cnt + 1,
                                skippedFiles := skippedFiles cnt @ [entryName entry]\<rparr>)
           else
             (case (if \<not> existsSync fileDir tree then mkdirSync fileDir now tree else Inr tree) of
                Inl e \<Rightarrow> Inl e
              | Inr tree1 \<Rightarrow>
                  (case writeFileSync filePath now (getData entry) tree1 of
                     Inl e \<Rightarrow> Inl e
                   | Inr tree2 \<Rightarrow> Inr (tree2, cnt\<lparr>fileCount := fileCount cnt + 1\<rparr>))))"

text \<open>
  The loop: the first exception ends it, and what was written before stays written.
\<close>

fun pull_loop ::
  "bool \<Rightarrow> nat option \<Rightarrow> nat \<Rightarrow> zip_entry list \<Rightarrow> node \<times> pull_counts
     \<Rightarrow> fs_error option \<times> node \<times> pull_counts" where
  "pull_loop force lastPull now [] st = (None, st)"
| "pull_loop force lastPull now (entry # entries) st =
     (case pull_entry force lastPull now entry st of
        Inl e \<Rightarrow> (Some e, st)
      | Inr st' \<Rightarrow> pull_loop force lastPull now entries st')"

text \<open>
  The pull command on the target directory \<open>w\<close>, with the \<^verbatim>\<open>project\<close> argument and
  \<^verbatim>\<open>--force\<close>. The result is the error that ended the command or the counts, then the
  world and the service after the command.
\<close>

definition pull ::
  "'s remote \<Rightarrow> string option \<Rightarrow> bool \<Rightarrow> world \<Rightarrow> 's
     \<Rightarrow> (cli_error + pull_counts) \<times> world \<times> 's" where
  "pull srv proj force w s =
     (if \<not> truthy proj \<and> meta_file w = None then (Inl NoProjectSpecified, w, s)
      else
        (case get_client srv s of
           (False, s1) \<Rightarrow> (Inl ClientFailed, w, s1)
         | (True, s1) \<Rightarrow>
             (let (ident, s2) =
                    (case meta_file w of
                       Some m \<Rightarrow>
                         if \<not> truthy proj \<and> m_projectId m \<noteq> []
                         then (Inr \<lparr>p_id = m_projectId m, p_name = m_projectName m\<rparr>, s1)
                         else resolve_project srv proj s1
                     | None \<Rightarrow> resolve_project srv proj s1)
              in case ident of
                   Inl e \<Rightarrow> (Inl e, w, s2)
                 | Inr pr \<Rightarrow>
                     (case downloadProject srv s2 (p_id pr) of
                        (Throws, s3) \<Rightarrow> (Inl DownloadFailed, w, s3)
                      | (Returns entries, s3) \<Rightarrow>
                          (let lastPull = (case meta_file w of
                                             Some m \<Rightarrow> m_lastPull m | None \<Rightarrow> None);
                               (ex, tree, cnt) =
                                 pull_loop force lastPull (clock w) entries
                                   (root w, \<lparr>fileCount = 0, skippedCount = 0, skippedFiles = []\<rparr>)
                           in case ex of
                                Some e \<Rightarrow> (Inl (FsError e), w\<lparr>root := tree\<rparr>, s3)
                              | None \<Rightarrow>
                                  (Inr cnt,
                                   w\<lparr>root := tree,
                                     meta_file := Some \<lparr>m_projectId = p_id pr,
                                       m_projectName = p_name pr, m_lastPull = Some (clock w),
                                       m_lastPush = None, m_lastSync = None\<rparr>\<rparr>,
                                   s3))))))"

text \<open>
  How push and sync start: the project of \<^verbatim>\<open>.olcli.json\<close> when the file exists,
  replaced by the \<^verbatim>\<open>--project\<close> option when that is given (then there is no
  identifier yet).
\<close>

definition bound_project :: "string option \<Rightarrow> world \<Rightarrow> string option \<times> string option" where
  "bound_project proj w =
     (let projectId = (case meta_file w of Some m \<Rightarrow> Some (m_projectId m) | None \<Rightarrow> None);
          projectName = (case meta_file w of Some m \<Rightarrow> Some (m_projectName m) | None \<Rightarrow> None)
      in if truthy proj then (None, proj) else (projectId, projectName))"

subsection \<open>push\<close>

record candidate =
  path :: "string list"
  relativePath :: string

text \<open>
  \<^verbatim>\<open>scanDir\<close> on the directory node it reads; \<open>currentDir\<close> is its path below the
  target directory. (It is only ever called on a directory; on a file, where
  \<^verbatim>\<open>readdirSync\<close> would throw, the model changes nothing.)
\<close>

fun scanDir ::
  "bool \<Rightarrow> nat option \<Rightarrow> node \<Rightarrow> string list \<Rightarrow> string \<Rightarrow> candidate list
     \<Rightarrow> candidate list" where
  "scanDir all lastPull (File m c) currentDir relativeBase filesToUpload = filesToUpload"
| "scanDir all lastPull (Dir m entries) currentDir relativeBase filesToUpload =
     fold (\<lambda>(name, n) acc.
        if startsWith_dot name then acc
        else
          let fullPath = currentDir @ [name];
              relPath = (if relativeBase \<noteq> [] then relativeBase @ ''/'' @ name else name)
          in case n of
               Dir dm des \<Rightarrow> scanDir all lastPull n fullPath relPath acc
             | File fm fc \<Rightarrow>
                 if all \<or> lastPull = None
                 then acc @ [\<lparr>path = fullPath, relativePath = relPath\<rparr>]
                 else (case lastPull of
                         Some lp \<Rightarrow>
                           if lp < fm then acc @ [\<lparr>path = fullPath, relativePath = relPath\<rparr>]
                           else acc
                       | None \<Rightarrow> acc))
       entries filesToUpload"

datatype push_report = NoFilesToUpload | WouldUpload "string list" | Uploaded nat nat

text \<open>
  The upload loop of push: a file that cannot be read or uploaded is counted as failed
  and the loop goes on. The log has, for every upload that was tried, the relative path
  and the requests \<^verbatim>\<open>uploadFile\<close> sent for it.
\<close>

fun push_loop ::
  "'s remote \<Rightarrow> nat \<Rightarrow> string \<Rightarrow> node \<Rightarrow> candidate list \<Rightarrow> nat \<times> nat \<Rightarrow> 's
     \<Rightarrow> (nat \<times> nat) \<times> (string \<times> (upload_req \<times> http_reply) list) list \<times> 's" where
  "push_loop srv now projectId tree [] cnt s = (cnt, [], s)"
| "push_loop srv now projectId tree (file # files) cnt s =
     (case readFileSync (path file) tree of
        Inl e \<Rightarrow> push_loop srv now projectId tree files (fst cnt, snd cnt + 1) s
      | Inr content \<Rightarrow>
          (let (res, atts, probed, s1) =
                 uploadFile srv now projectId None (relativePath file) content s;
               cnt1 = (case res of Inl e \<Rightarrow> (fst cnt, snd cnt + 1)
                                 | Inr r \<Rightarrow> (fst cnt + 1, snd cnt));
               (cnt2, lg, s2) = push_loop srv now projectId tree files cnt1 s1
           in (cnt2, (relativePath file, atts) # lg, s2)))"

definition push ::
  "'s remote \<Rightarrow> string option \<Rightarrow> bool \<Rightarrow> bool \<Rightarrow> world \<Rightarrow> 's
     \<Rightarrow> (cli_error + push_report) \<times> (string \<times> (upload_req \<times> http_reply) list) list
         \<times> world \<times> 's" where
  "push srv proj all dryRun w s =
     (let (projectId, projectName) = bound_project proj w;
          lastPull = (case meta_file w of Some m \<Rightarrow> m_lastPull m | None \<Rightarrow> None)
      in if \<not> truthy projectId \<and> \<not> truthy projectName then (Inl NoProjectSpecified, [], w, s)
         else
           (case get_client srv s of
              (False, s1) \<Rightarrow> (Inl ClientFailed, [], w, s1)
            | (True, s1) \<Rightarrow>
                (let (ident, s2) =
                       (case projectId of
                          Some i \<Rightarrow> if i \<noteq> [] then (Inr i, s1)
                                    else map_prod (map_sum id p_id) id (resolve_project srv projectName s1)
                        | None \<Rightarrow> map_prod (map_sum id p_id) id (resolve_project srv projectName s1))
                 in case ident of
                      Inl e \<Rightarrow> (Inl e, [], w, s2)
                    | Inr pid \<Rightarrow>
                        (let filesToUpload = scanDir all lastPull (root w) [] [] []
                         in if filesToUpload = [] then (Inr NoFilesToUpload, [], w, s2)
                            else if dryRun
                            then (Inr (WouldUpload (map relativePath filesToUpload)), [], w, s2)
                            else
                              (let (cnt, lg, s3) =
                                     push_loop srv (clock w) pid (root w) filesToUpload (0, 0) s2;
                                   w' = (case meta_file w of
                                           Some m \<Rightarrow>
                                             w\<lparr>meta_file := Some (m\<lparr>m_lastPush := Some (clock w)\<rparr>)\<rparr>
                                         | None \<Rightarrow> w)
                               in (Inr (Uploaded (fst cnt) (snd cnt)), lg, w', s3))))))"


subsection \<open>sync\<close>

text \<open>
  \<^verbatim>\<open>scanLocalFiles\<close> fills the map \<^verbatim>\<open>localFiles\<close>. A JavaScript \<^verbatim>\<open>Map\<close> is an
  association list in insertion order; \<^verbatim>\<open>set\<close> replaces the value of a key that is
  there and appends a new key, which is \<open>AList.update\<close>.
\<close>

fun scanLocalFiles ::
  "node \<Rightarrow> string \<Rightarrow> (string \<times> nat \<times> string) list \<Rightarrow> (string \<times> nat \<times> string) list" where
  "scanLocalFiles (File m c) relativeBase localFiles = localFiles"
| "scanLocalFiles (Dir m entries) relativeBase localFiles =
     fold (\<lambda>(name, n) acc.
        if startsWith_dot name then acc
        else
          let relPath = (if relativeBase \<noteq> [] then relativeBase @ ''/'' @ name else name)
          in case n of
               Dir dm des \<Rightarrow> scanLocalFiles n relPath acc
             | File fm fc \<Rightarrow> AList.update relPath (fm, fc) acc)
       entries localFiles"

text \<open>The scan happens only when \<^verbatim>\<open>.olcli.json\<close> exists.\<close>

definition localFiles_of :: "world \<Rightarrow> (string \<times> nat \<times> string) list" where
  "localFiles_of w = (if meta_file w \<noteq> None then scanLocalFiles (root w) [] [] else [])"

definition remoteFiles_of :: "zip_entry list \<Rightarrow> (string \<times> string) list" where
  "remoteFiles_of entries =
     fold (\<lambda>entry rf. if \<not> isDirectory entry
                        then AList.update (entryName entry) (getData entry) rf else rf)
       entries []"

record sync_lists =
  filesToUpload :: "(string \<times> string) list"
  filesUpdatedLocally :: "string list"
  filesKeptLocal :: "string list"
  filesNewLocal :: "string list"

text \<open>One turn of the loop over \<^verbatim>\<open>remoteFiles\<close>.\<close>

definition merge_entry ::
  "(string \<times> nat \<times> string) list \<Rightarrow> nat option \<Rightarrow> nat \<Rightarrow> string \<times> string
     \<Rightarrow> node \<times> sync_lists \<Rightarrow> fs_error + node \<times> sync_lists" where
  "merge_entry localFiles lastPull now rf st =
     (let (tree, ls) = st;
          (pth, remoteContent) = rf;
          filePath = segments pth;
          fileDir = butlast filePath
      in case (if \<not> existsSync fileDir tree then mkdirSync fileDir now tree else Inr tree) of
           Inl e \<Rightarrow> Inl e
         | Inr tree1 \<Rightarrow>
             (let localFile = map_of localFiles pth
              in if (case localFile of
                       Some (lm, lc) \<Rightarrow> (case lastPull of Some lp \<Rightarrow> lp < lm | None \<Rightarrow> False)
                     | None \<Rightarrow> False)
                 then
                   (case localFile of
                      Some (lm, lc) \<Rightarrow>
                        if lc \<noteq> remoteContent
                        then Inr (tree1, ls\<lparr>filesToUpload := filesToUpload ls @ [(pth, lc)],
                                            filesKeptLocal := filesKeptLocal ls @ [pth]\<rparr>)
                        else Inr (tree1, ls)
                    | None \<Rightarrow> Inr (tree1, ls))
                 else
                   (case writeFileSync filePath now remoteContent tree1 of
                      Inl e \<Rightarrow> Inl e
                    | Inr tree2 \<Rightarrow>
                        Inr (tree2, ls\<lparr>filesUpdatedLocally := filesUpdatedLocally ls @ [pth]\<rparr>))))"

fun merge_loop ::
  "(string \<times> nat \<times> string) list \<Rightarrow> nat option \<Rightarrow> nat \<Rightarrow> (string \<times> string) list
     \<Rightarrow> node \<times> sync_lists \<Rightarrow> fs_error option \<times> node \<times> sync_lists" where
  "merge_loop localFiles lastPull now [] st = (None, st)"
| "merge_loop localFiles lastPull now (rf # rest) st =
     (case merge_entry localFiles lastPull now rf st of
        Inl e \<Rightarrow> (Some e, st)
      | Inr st' \<Rightarrow> merge_loop localFiles lastPull now rest st')"

text \<open>The loop over \<^verbatim>\<open>localFiles\<close> that looks for new local files.\<close>

definition new_local_loop ::
  "(string \<times> string) list \<Rightarrow> (string \<times> nat \<times> string) list \<Rightarrow> sync_lists \<Rightarrow> sync_lists" where
  "new_local_loop remoteFiles localFiles ls0 =
     fold (\<lambda>(pth, (lm, lc)) ls.
        if map_of remoteFiles pth = None
        then ls\<lparr>filesToUpload := filesToUpload ls @ [(pth, lc)],
                filesNewLocal := filesNewLocal ls @ [pth]\<rparr>
        else ls)
       localFiles ls0"

text \<open>
  What sync does between the download and the uploads: the scan, the two maps, the
  loop that writes remote files or keeps local ones, and the loop for new local files.
  It gives the exception that ended it, if any, the tree and the four lists.
\<close>

definition sync_plan :: "world \<Rightarrow> zip_entry list \<Rightarrow> fs_error option \<times> node \<times> sync_lists" where
  "sync_plan w entries =
     (let localFiles = localFiles_of w;
          remoteFiles = remoteFiles_of entries;
          lastPull = (case meta_file w of Some m \<Rightarrow> m_lastPull m | None \<Rightarrow> None);
          (ex, tree, ls) =
            merge_loop localFiles lastPull (clock w) remoteFiles
              (root w, \<lparr>filesToUpload = [], filesUpdatedLocally = [],
                        filesKeptLocal = [], filesNewLocal = []\<rparr>)
      in case ex of
           Some e \<Rightarrow> (Some e, tree, ls)
         | None \<Rightarrow> (None, tree, new_local_loop remoteFiles localFiles ls))"

text \<open>The upload loop of sync: the first upload that fails ends the command.\<close>

fun sync_upload ::
  "'s remote \<Rightarrow> nat \<Rightarrow> string \<Rightarrow> (string \<times> string) list \<Rightarrow> 's
     \<Rightarrow> upload_error option \<times> (string \<times> (upload_req \<times> http_reply) list) list \<times> 's" where
  "sync_upload srv now projectId [] s = (None, [], s)"
| "sync_upload srv now projectId (file # files) s =
     (let (res, atts, probed, s1) = uploadFile srv now projectId None (fst file) (snd file) s
      in case res of
           Inl e \<Rightarrow> (Some e, [(fst file, atts)], s1)
         | Inr r \<Rightarrow>
             (let (ex, lg, s2) = sync_upload srv now projectId files s1
              in (ex, (fst file, atts) # lg, s2)))"

definition sync ::
  "'s remote \<Rightarrow> string option \<Rightarrow> world \<Rightarrow> 's
     \<Rightarrow> (cli_error + sync_lists) \<times> (string \<times> (upload_req \<times> http_reply) list) list
         \<times> world \<times> 's" where
  "sync srv proj w s =
     (let (projectId, projectName) = bound_project proj w
      in if \<not> truthy projectId \<and> \<not> truthy projectName then (Inl NoProjectSpecified, [], w, s)
         else
           (case get_client srv s of
              (False, s1) \<Rightarrow> (Inl ClientFailed, [], w, s1)
            | (True, s1) \<Rightarrow>
                (let (ident, s2) =
                       (case projectId of
                          Some i \<Rightarrow>
                            if i \<noteq> []
                            then (Inr \<lparr>p_id = i, p_name = (case projectName of Some n \<Rightarrow> n | None \<Rightarrow> [])\<rparr>, s1)
                            else resolve_project srv projectName s1
                        | None \<Rightarrow> resolve_project srv projectName s1)
                 in case ident of
                      Inl e \<Rightarrow> (Inl e, [], w, s2)
                    | Inr pr \<Rightarrow>
                        (case downloadProject srv s2 (p_id pr) of
                           (Throws, s3) \<Rightarrow> (Inl DownloadFailed, [], w, s3)
                         | (Returns entries, s3) \<Rightarrow>
                             (let (ex, tree, ls) = sync_plan w entries
                              in case ex of
                                   Some e \<Rightarrow> (Inl (FsError e), [], w\<lparr>root := tree\<rparr>, s3)
                                 | None \<Rightarrow>
                                     (let (ux, lg, s4) =
                                            sync_upload srv (clock w) (p_id pr) (filesToUpload ls) s3
                                      in case ux of
                                           Some e \<Rightarrow> (Inl (UploadError e), lg, w\<lparr>root := tree\<rparr>, s4)
                                         | None \<Rightarrow>
                                             (Inr ls, lg,
                                              w\<lparr>root := tree,
                                                meta_file := Some \<lparr>m_projectId = p_id pr,
                                                  m_projectName = p_name pr,
                                                  m_lastPull = Some (clock w), m_lastPush = None,
                                                  m_lastSync = Some (clock w)\<rparr>\<rparr>,
                                              s4)))))))"


section \<open>Notions used in the statements\<close>

text \<open>The counter of an identifier and the handle whose counter is moved by \<open>k\<close>.\<close>

definition counter_of :: "string \<Rightarrow> jsnum" where
  "counter_of projectId = parseInt16 (drop 16 projectId)"

definition offset_handle :: "string \<Rightarrow> int \<Rightarrow> string" where
  "offset_handle projectId k =
     take 16 projectId @ padStart8 (toString16 (js_add (counter_of projectId) k))"

text \<open>
  An attempt of \<^verbatim>\<open>tryUpload\<close> was rejected with \<^verbatim>\<open>folder_not_found\<close>; an attempt
  failed (it threw, or \<^verbatim>\<open>success\<close> is false).
\<close>

definition is_folder_not_found :: "try_result option \<Rightarrow> bool" where
  "is_folder_not_found r =
     (case r of None \<Rightarrow> False
      | Some t \<Rightarrow> \<not> tr_success t \<and> tr_error t = Some ''folder_not_found'')"

definition is_failure :: "try_result option \<Rightarrow> bool" where
  "is_failure r = (case r of None \<Rightarrow> True | Some t \<Rightarrow> \<not> tr_success t)"

text \<open>
  The local files of a directory as the Local Tree Scanner of the specification lists
  them: every file below the directory that is not hidden (no name on the way to it
  starts with a dot), in the order of the listing, with its path, its relative path and
  its modification time.
\<close>

fun local_files :: "node \<Rightarrow> string list \<Rightarrow> string \<Rightarrow> (candidate \<times> nat) list" where
  "local_files (File m c) currentDir relativeBase = []"
| "local_files (Dir m entries) currentDir relativeBase =
     concat (map (\<lambda>(name, n).
        if startsWith_dot name then []
        else
          let fullPath = currentDir @ [name];
              relPath = (if relativeBase \<noteq> [] then relativeBase @ ''/'' @ name else name)
          in case n of
               Dir dm des \<Rightarrow> local_files n fullPath relPath
             | File fm fc \<Rightarrow> [(\<lparr>path = fullPath, relativePath = relPath\<rparr>, fm)])
       entries)"

text \<open>
  The rule for a push candidate: \<^verbatim>\<open>--all\<close>, or no \<^verbatim>\<open>lastPull\<close>, or a modification
  time strictly after \<^verbatim>\<open>lastPull\<close>.
\<close>

definition is_candidate :: "bool \<Rightarrow> nat option \<Rightarrow> nat \<Rightarrow> bool" where
  "is_candidate all lastPull m =
     (all \<or> (case lastPull of None \<Rightarrow> True | Some lp \<Rightarrow> lp < m))"

text \<open>The \<^verbatim>\<open>lastPull\<close> watermark a command reads from \<^verbatim>\<open>.olcli.json\<close>.\<close>

definition lastPull_of :: "world \<Rightarrow> nat option" where
  "lastPull_of w = (case meta_file w of Some m \<Rightarrow> m_lastPull m | None \<Rightarrow> None)"

text \<open>The paths of the files of an archive, one for every entry that is not a directory.\<close>

definition file_entries :: "zip_entry list \<Rightarrow> zip_entry list" where
  "file_entries entries = filter (\<lambda>e. \<not> isDirectory e) entries"

definition file_names :: "zip_entry list \<Rightarrow> string list list" where
  "file_names entries = map (\<lambda>e. segments (entryName e)) (file_entries entries)"

text \<open>
  The test of the merge loop of sync (\<^verbatim>\<open>localFile && lastPull && localFile.mtime >
  lastPull\<close>): the scan found a local file at the path, and its modification time is
  strictly after \<^verbatim>\<open>lastPull\<close>.
\<close>

definition keeps_local :: "(string \<times> nat \<times> string) list \<Rightarrow> nat option \<Rightarrow> string \<Rightarrow> bool" where
  "keeps_local localFiles lastPull pth =
     (case map_of localFiles pth of
        Some (lm, lc) \<Rightarrow> (case lastPull of Some lp \<Rightarrow> lp < lm | None \<Rightarrow> False)
      | None \<Rightarrow> False)"

text \<open>The upload a kept local file gives rise to: its own content, when that differs.\<close>

definition kept_upload ::
  "(string \<times> nat \<times> string) list \<Rightarrow> nat option \<Rightarrow> string \<times> string \<Rightarrow> (string \<times> string) list" where
  "kept_upload localFiles lastPull rf =
     (case map_of localFiles (fst rf) of
        Some (lm, lc) \<Rightarrow>
          if keeps_local localFiles lastPull (fst rf) \<and> lc \<noteq> snd rf then [(fst rf, lc)] else []
      | None \<Rightarrow> [])"

text \<open>
  A tree as a file system has it: in every directory the names are distinct, and a
  name is not empty, is not \<^verbatim>\<open>.\<close> and has no slash.
\<close>

definition valid_name :: "string \<Rightarrow> bool" where
  "valid_name name = (name \<noteq> [] \<and> name \<noteq> ''.'' \<and> CHR ''/'' \<notin> set name)"

fun valid_tree :: "node \<Rightarrow> bool" where
  "valid_tree (File m c) = True"
| "valid_tree (Dir m entries) =
     (distinct (map fst entries)
      \<and> (\<forall>(name, n)\<in>set entries. valid_name name \<and> valid_tree n))"

text \<open>
  Services for the examples: they have no state, know one project by name, serve one
  archive and give no folder in the project details. \<open>demo_remote good\<close> takes uploads
  into the folder \<open>good\<close> only and answers \<^verbatim>\<open>folder_not_found\<close> for every other
  folder.
\<close>

definition demo_reply :: "bool \<Rightarrow> http_reply" where
  "demo_reply hit =
     (if hit
      then Http True 200 [] (Some \<lparr>success_false = False, err = None,
                                    entity_id = Some ''e1'', entity_type = Some ''doc''\<rparr>)
      else Http True 200 [] (Some \<lparr>success_false = True, err = Some ''folder_not_found'',
                                    entity_id = None, entity_type = None\<rparr>))"

definition demo_service ::
  "(upload_req \<Rightarrow> http_reply) \<Rightarrow> zip_entry list outcome \<Rightarrow> unit remote" where
  "demo_service answer archive =
     \<lparr>project_info = (\<lambda>s pid. (Info None, s)),
      upload = (\<lambda>s rq. (answer rq, s)),
      delete_entity = (\<lambda>s x. (True, s)),
      get_client = (\<lambda>s. (True, s)),
      getProjectById = (\<lambda>s x. (Returns None, s)),
      getProject = (\<lambda>s x. (Returns (Some \<lparr>p_id = ''507f1f77bcf86cd700000003'',
                                              p_name = ''thesis''\<rparr>), s)),
      downloadProject = (\<lambda>s pid. (archive, s))\<rparr>"

definition demo_remote :: "string \<Rightarrow> zip_entry list outcome \<Rightarrow> unit remote" where
  "demo_remote good archive = demo_service (\<lambda>rq. demo_reply (req_folder rq = good)) archive"

text \<open>
  Worlds for the examples: a directory bound to the project with \<^verbatim>\<open>lastPull = 10\<close>,
  holding \<^verbatim>\<open>main.tex\<close> (older than that), \<^verbatim>\<open>notes.tex\<close> and
  \<^verbatim>\<open>figures/plot.png\<close> (newer) and a hidden file; and the same directory without
  \<^verbatim>\<open>.olcli.json\<close>.
\<close>

definition demo_tree :: node where
  "demo_tree =
     Dir 1 [(''main.tex'', File 5 ''A''),
            (''.gitignore'', File 30 ''x''),
            (''notes.tex'', File 20 ''B''),
            (''figures'', Dir 2 [(''plot.png'', File 25 ''PNG'')])]"

definition demo_meta :: meta where
  "demo_meta = \<lparr>m_projectId = ''507f1f77bcf86cd700000003'', m_projectName = ''thesis'',
                 m_lastPull = Some 10, m_lastPush = None, m_lastSync = None\<rparr>"

definition demo_world :: world where
  "demo_world = \<lparr>root = demo_tree, meta_file = Some demo_meta, clock = 40\<rparr>"

definition unbound_world :: world where
  "unbound_world = \<lparr>root = demo_tree, meta_file = None, clock = 40\<rparr>"

text \<open>
  An archive with new versions of \<^verbatim>\<open>main.tex\<close> and \<^verbatim>\<open>notes.tex\<close>, and an empty
  directory that is not bound to a project yet.
\<close>

definition demo_archive :: "zip_entry list" where
  "demo_archive =
     [\<lparr>entryName = ''main.tex'', isDirectory = False, getData = ''A2''\<rparr>,
      \<lparr>entryName = ''notes.tex'', isDirectory = False, getData = ''B2''\<rparr>]"

definition fresh_world :: world where
  "fresh_world = \<lparr>root = Dir 0 [], meta_file = None, clock = 100\<rparr>"

section \<open>Properties of the folder resolver\<close>

lemma probe_below_closed:
  "probe_below p c i cs =
     cs @ map (\<lambda>j. p @ padStart8 (toString16 (js_add c (- int j))))
            (filter (\<lambda>j. js_ge0 (js_add c (- int j))) [i..<51])"
proof (induction p c i cs rule: probe_below.induct)
  case (1 prefix suffix i candidates)
  show ?case
  proof (cases "i \<le> 50")
    case True
    then have u: "[i..<51] = i # [i + 1..<51]" by (simp add: upt_conv_Cons)
    show ?thesis
      using True 1 [OF True] by (subst probe_below.simps) (simp add: u)
  next
    case False
    then show ?thesis by (subst probe_below.simps) simp
  qed
qed

lemma probe_above_closed:
  "probe_above p c i cs =
     cs @ map (\<lambda>j. p @ padStart8 (toString16 (js_add c (int j)))) [i..<51]"
proof (induction p c i cs rule: probe_above.induct)
  case (1 prefix suffix i candidates)
  show ?case
  proof (cases "i \<le> 50")
    case True
    then have u: "[i..<51] = i # [i + 1..<51]" by (simp add: upt_conv_Cons)
    show ?thesis
      using True 1 [OF True] by (subst probe_above.simps) (simp add: u)
  next
    case False
    then show ?thesis by (subst probe_above.simps) simp
  qed
qed

lemma probe_candidates_closed:
  "probe_candidates pid =
     offset_handle pid (- 1)
     # map (\<lambda>j. offset_handle pid (- int j))
         (filter (\<lambda>j. js_ge0 (js_add (counter_of pid) (- int j))) [2..<51])
     @ map (\<lambda>j. offset_handle pid (int j)) [1..<51]"
  unfolding probe_candidates_def Let_def probe_below_closed probe_above_closed
      offset_handle_def counter_of_def computeRootFolderId_def
  by (simp only: append_Cons append_Nil append_assoc)

lemma hex_counter:
  assumes "length pid = 24" "list_all is_hex pid"
  shows "\<exists>c. counter_of pid = Some c \<and> 0 \<le> c"
proof -
  have "\<forall>x\<in>set (drop 16 pid). is_hex x"
    using assms(2) by (auto simp: list_all_iff dest: in_set_dropD)
  then have tw: "takeWhile is_hex (drop 16 pid) = drop 16 pid"
    by simp
  have ne: "drop 16 pid \<noteq> []" using assms(1) by simp
  show ?thesis
    unfolding counter_of_def parseInt16_def Let_def tw using ne by simp
qed

lemma probe_loop_log:
  "probe_loop srv pid now cands s = (res, lg, s') \<Longrightarrow>
     map fst lg = map (probe_req pid now) (take (length lg) cands) \<and>
     (\<forall>x\<in>set (butlast lg). probe_hit (snd x) = None) \<and>
     (res = None \<longrightarrow> length lg = length cands \<and> (\<forall>x\<in>set lg. probe_hit (snd x) = None)) \<and>
     (\<forall>f. res = Some f \<longrightarrow>
        lg \<noteq> [] \<and> length lg \<le> length cands \<and> f = cands ! (length lg - 1)
        \<and> probe_hit (snd (last lg)) \<noteq> None)"
proof (induction cands arbitrary: s res lg s')
  case Nil
  then show ?case by simp
next
  case (Cons c cs)
  obtain r s1 where u: "upload srv s (probe_req pid now c) = (r, s1)"
    by (cases "upload srv s (probe_req pid now c)")
  show ?case
  proof (cases "probe_hit r")
    case None
    obtain res2 lg2 s2 where rec: "probe_loop srv pid now cs s1 = (res2, lg2, s2)"
      by (cases "probe_loop srv pid now cs s1")
    from Cons.prems u None rec have eq: "res = res2" "lg = (probe_req pid now c, r) # lg2"
      by (auto simp: Let_def)
    from Cons.IH [OF rec] eq None show ?thesis
      by (cases lg2) (auto simp: nth_Cons')
  next
    case (Some eid)
    with Cons.prems u show ?thesis
      by (auto simp: Let_def split: prod.splits)
  qed
qed

text \<open>
  C6. For a project identifier of 24 hexadecimal characters with counter \<open>c\<close>, the
  candidates of \<^verbatim>\<open>probeRootFolderId\<close> are, in this order: the handle of offset \<open>-1\<close>, then
  those of the offsets \<open>-2\<close> down to \<open>-50\<close> that leave the counter non-negative, then
  those of \<open>+1\<close> up to \<open>+50\<close>. The probe uploads sent are a prefix of this list, in order;
  every probe but the last one sent found nothing; when a handle is returned it is the
  candidate of the last probe sent, which succeeded; when null (\<open>None\<close>) is returned every
  candidate was tried and none succeeded.
\<close>

theorem probe_order:
  assumes "length projectId = 24" and "list_all is_hex projectId"
      and "probeRootFolderId srv projectId now s = (res, lg, s')"
  shows "\<exists>c. counter_of projectId = Some c \<and> 0 \<le> c
      \<and> probe_candidates projectId =
            offset_handle projectId (- 1)
            # map (\<lambda>j. offset_handle projectId (- int j)) (filter (\<lambda>j. int j \<le> c) [2..<51])
            @ map (\<lambda>j. offset_handle projectId (int j)) [1..<51]
      \<and> map fst lg = map (probe_req projectId now) (take (length lg) (probe_candidates projectId))
      \<and> (\<forall>x\<in>set (butlast lg). probe_hit (snd x) = None)
      \<and> (res = None \<longrightarrow> length lg = length (probe_candidates projectId)
                          \<and> (\<forall>x\<in>set lg. probe_hit (snd x) = None))
      \<and> (\<forall>f. res = Some f \<longrightarrow>
            lg \<noteq> [] \<and> length lg \<le> length (probe_candidates projectId)
            \<and> f = probe_candidates projectId ! (length lg - 1)
            \<and> probe_hit (snd (last lg)) \<noteq> None)"
proof -
  from hex_counter [OF assms(1,2)] obtain c where c: "counter_of projectId = Some c" "0 \<le> c"
    by blast
  have flt: "filter (\<lambda>j. js_ge0 (js_add (counter_of projectId) (- int j))) [2..<51]
             = filter (\<lambda>j. int j \<le> c) [2..<51]"
    by (rule filter_cong) (auto simp: c js_ge0_def js_add_def)
  have cl: "probe_candidates projectId =
            offset_handle projectId (- 1)
            # map (\<lambda>j. offset_handle projectId (- int j)) (filter (\<lambda>j. int j \<le> c) [2..<51])
            @ map (\<lambda>j. offset_handle projectId (int j)) [1..<51]"
    using probe_candidates_closed [of projectId] unfolding flt .
  note lg = probe_loop_log [OF assms(3) [unfolded probeRootFolderId_def]]
  from c cl lg show ?thesis by blast
qed

theorem probe_order_witness:
  "length ''507f1f77bcf86cd700000003'' = 24
   \<and> list_all is_hex ''507f1f77bcf86cd700000003''
   \<and> fst (probeRootFolderId (demo_remote ''507f1f77bcf86cd700000001'' Throws)
            ''507f1f77bcf86cd700000003'' 7 ()) = Some ''507f1f77bcf86cd700000001''
   \<and> map (req_folder \<circ> fst)
        (fst (snd (probeRootFolderId (demo_remote ''507f1f77bcf86cd700000001'' Throws)
                     ''507f1f77bcf86cd700000003'' 7 ())))
      = [''507f1f77bcf86cd700000002'', ''507f1f77bcf86cd700000001'']
   \<and> ''507f1f77bcf86cd700000001''
      = probe_candidates ''507f1f77bcf86cd700000003''
          ! (length (fst (snd (probeRootFolderId (demo_remote ''507f1f77bcf86cd700000001'' Throws)
                                 ''507f1f77bcf86cd700000003'' 7 ()))) - 1)"
proof -
  define r where
    "r = probeRootFolderId (demo_remote ''507f1f77bcf86cd700000001'' Throws)
           ''507f1f77bcf86cd700000003'' 7 ()"
  have h1: "length ''507f1f77bcf86cd700000003'' = 24" by simp
  have h2: "list_all is_hex ''507f1f77bcf86cd700000003''" by code_simp
  have run: "probeRootFolderId (demo_remote ''507f1f77bcf86cd700000001'' Throws)
               ''507f1f77bcf86cd700000003'' 7 () = (fst r, fst (snd r), snd (snd r))"
    by (simp add: r_def prod_eq_iff)
  have res: "fst r = Some ''507f1f77bcf86cd700000001''"
    unfolding r_def by code_simp
  have lg: "map (req_folder \<circ> fst) (fst (snd r))
            = [''507f1f77bcf86cd700000002'', ''507f1f77bcf86cd700000001'']"
    unfolding r_def by code_simp
  from probe_order [OF h1 h2 run] res have
    "''507f1f77bcf86cd700000001''
       = probe_candidates ''507f1f77bcf86cd700000003'' ! (length (fst (snd r)) - 1)"
    by blast
  with h1 h2 res lg show ?thesis unfolding r_def by blast
qed

lemma tryUpload_props:
  "tryUpload srv pid b m c fid s = (r, a, s') \<Longrightarrow>
     try_reply (snd a) = r \<and>
     fst a = \<lparr>req_project = pid, req_folder = fid, req_name = b, req_type = m, req_content = c\<rparr>"
  by (auto simp: tryUpload_def Let_def split: prod.splits)

lemma finish_upload_fail: "\<not> tr_success r \<Longrightarrow> isl (finish_upload r)"
  by (simp add: finish_upload_def)

lemma probe_loop_last:
  "probe_loop srv pid now cands s = (Some f, lg, s') \<Longrightarrow>
     lg \<noteq> [] \<and> req_folder (fst (last lg)) = f \<and> f \<in> set cands"
proof (induction cands arbitrary: s lg s')
  case Nil
  then show ?case by simp
next
  case (Cons c cs)
  obtain r s1 where u: "upload srv s (probe_req pid now c) = (r, s1)"
    by (cases "upload srv s (probe_req pid now c)")
  show ?case
  proof (cases "probe_hit r")
    case None
    obtain res2 lg2 s2 where rec: "probe_loop srv pid now cs s1 = (res2, lg2, s2)"
      by (cases "probe_loop srv pid now cs s1")
    from Cons.prems u None rec have eq: "res2 = Some f" "lg = (probe_req pid now c, r) # lg2"
      by (auto simp: Let_def)
    from Cons.IH [OF rec [unfolded eq(1)]] eq show ?thesis by simp
  next
    case (Some eid)
    with Cons.prems u show ?thesis
      by (auto simp: Let_def probe_req_def split: prod.splits)
  qed
qed

lemma probe_loop_none:
  "probe_loop srv pid now cands s = (None, lg, s') \<Longrightarrow> \<forall>x\<in>set lg. probe_hit (snd x) = None"
  using probe_loop_log [of srv pid now cands s None lg s'] by simp

lemma probe_candidates_nonempty: "c \<in> set (probe_candidates pid) \<Longrightarrow> c \<noteq> []"
proof -
  have pad: "\<And>x. padStart8 x \<noteq> []"
    by (auto simp: padStart8_def)
  assume "c \<in> set (probe_candidates pid)"
  then show ?thesis
    unfolding probe_candidates_closed by (auto simp: offset_handle_def pad)
qed

lemma probeRootFolderId_hit:
  assumes "probeRootFolderId srv pid now s = (pr, plog, s')"
      and "plog \<noteq> []" and "probe_hit (snd (last plog)) \<noteq> None"
  shows "\<exists>p. pr = Some p \<and> p \<noteq> [] \<and> req_folder (fst (last plog)) = p"
proof (cases pr)
  case None
  with assms(1) have "\<forall>x\<in>set plog. probe_hit (snd x) = None"
    unfolding probeRootFolderId_def by (auto dest: probe_loop_none)
  with assms(2,3) show ?thesis by (auto dest: last_in_set)
next
  case (Some p)
  with assms(1) probe_loop_last [of srv pid now "probe_candidates pid" s p plog s']
  have "req_folder (fst (last plog)) = p" "p \<in> set (probe_candidates pid)"
    unfolding probeRootFolderId_def by auto
  with Some probe_candidates_nonempty show ?thesis by blast
qed

text \<open>
  C7. \<^verbatim>\<open>uploadFile\<close> sends the file once or twice. It sends it twice only when the
  first attempt was rejected with \<^verbatim>\<open>folder_not_found\<close>; then
  \<^verbatim>\<open>probeRootFolderId\<close> was called and gave a handle, and the second attempt is the
  first request with that handle as its folder. After a \<^verbatim>\<open>folder_not_found\<close> the
  probe is always called, and when its last probe succeeded on a folder other than the
  one just rejected, the second attempt is made. A first attempt that fails in another
  way is the only attempt, without a probe, and the call fails. When the last attempt
  failed, the call fails.
\<close>

theorem uploadFile_retry:
  assumes run: "uploadFile srv now pid folderId fileName content s = (res, atts, probed, s')"
  shows "(length atts = 1 \<or> length atts = 2)
    \<and> (length atts = 2 \<longrightarrow>
          is_folder_not_found (try_reply (snd (atts ! 0)))
          \<and> (\<exists>s1 p plog s2. probeRootFolderId srv pid now s1 = (Some p, plog, s2)
                \<and> probed = Some plog
                \<and> fst (atts ! 1) = (fst (atts ! 0))\<lparr>req_folder := p\<rparr>
                \<and> p \<noteq> req_folder (fst (atts ! 0))))
    \<and> (is_folder_not_found (try_reply (snd (atts ! 0))) \<longrightarrow>
          (\<exists>plog. probed = Some plog
             \<and> (plog \<noteq> [] \<and> probe_hit (snd (last plog)) \<noteq> None
                  \<and> req_folder (fst (last plog)) \<noteq> req_folder (fst (atts ! 0))
                \<longrightarrow> length atts = 2)))
    \<and> (is_failure (try_reply (snd (atts ! 0)))
          \<and> \<not> is_folder_not_found (try_reply (snd (atts ! 0)))
          \<longrightarrow> length atts = 1 \<and> probed = None \<and> isl res)
    \<and> (is_failure (try_reply (snd (last atts))) \<longrightarrow> isl res)"
proof -
  let ?b = "baseName_of fileName"
  let ?m = "mimeType_of (baseName_of fileName)"
  obtain tf s0 where root:
    "(case folderId of
        Some f \<Rightarrow> if f \<noteq> [] then (f, s) else getRootFolderId srv pid s
      | None \<Rightarrow> getRootFolderId srv pid s) = (tf, s0)"
    by (cases "(case folderId of
        Some f \<Rightarrow> if f \<noteq> [] then (f, s) else getRootFolderId srv pid s
      | None \<Rightarrow> getRootFolderId srv pid s)")
  obtain r1 a1 s1 where t1: "tryUpload srv pid ?b ?m content tf s0 = (r1, a1, s1)"
    by (cases "tryUpload srv pid ?b ?m content tf s0")
  note p1 = tryUpload_props [OF t1]
  obtain pr plog s2 where pb: "probeRootFolderId srv pid now s1 = (pr, plog, s2)"
    by (cases "probeRootFolderId srv pid now s1")
  note defs = uploadFile_def Let_def root t1 pb is_folder_not_found_def is_failure_def
  show ?thesis
  proof (cases r1)
    case None
    with run p1 show ?thesis by (auto simp: defs)
  next
    case (Some r1')
    show ?thesis
    proof (cases "\<not> tr_success r1' \<and> tr_error r1' = Some ''folder_not_found''")
      case False
      with run Some p1 show ?thesis
        by (auto simp: defs finish_upload_fail)
    next
      case fnf: True
      show ?thesis
      proof (cases pr)
        case None
        have shape: "atts = [a1] \<and> probed = Some plog \<and> res = finish_upload r1'"
          using run Some fnf None by (auto simp: uploadFile_def Let_def root t1 pb)
        have nohit: "\<not> (plog \<noteq> [] \<and> probe_hit (snd (last plog)) \<noteq> None)"
          using probeRootFolderId_hit [OF pb] None by fastforce
        have c3: "\<exists>plog'. probed = Some plog'
             \<and> (plog' \<noteq> [] \<and> probe_hit (snd (last plog')) \<noteq> None
                  \<and> req_folder (fst (last plog')) \<noteq> req_folder (fst (atts ! 0))
                \<longrightarrow> length atts = 2)"
          using shape nohit by blast
        have c1: "is_folder_not_found (try_reply (snd (atts ! 0)))"
          using shape p1 Some fnf by (auto simp: is_folder_not_found_def)
        have c5: "isl res" using shape fnf by (simp add: finish_upload_fail)
        from shape c1 c3 c5 show ?thesis by simp
      next
        case (Some p)
        show ?thesis
        proof (cases "p \<noteq> [] \<and> p \<noteq> tf")
          case False
          have shape: "atts = [a1] \<and> probed = Some plog \<and> res = finish_upload r1'"
            using run \<open>r1 = Some r1'\<close> fnf Some False
            by (auto simp: uploadFile_def Let_def root t1 pb)
          have same: "\<not> (plog \<noteq> [] \<and> probe_hit (snd (last plog)) \<noteq> None
              \<and> req_folder (fst (last plog)) \<noteq> tf)"
            using probeRootFolderId_hit [OF pb] Some False by fastforce
          have c3: "\<exists>plog'. probed = Some plog'
             \<and> (plog' \<noteq> [] \<and> probe_hit (snd (last plog')) \<noteq> None
                  \<and> req_folder (fst (last plog')) \<noteq> req_folder (fst (atts ! 0))
                \<longrightarrow> length atts = 2)"
            using shape same p1 by auto
          have c1: "is_folder_not_found (try_reply (snd (atts ! 0)))"
            using shape p1 \<open>r1 = Some r1'\<close> fnf by (auto simp: is_folder_not_found_def)
          have c5: "isl res" using shape fnf by (simp add: finish_upload_fail)
          from shape c1 c3 c5 show ?thesis by simp
        next
          case True
          obtain r2 a2 s3 where t2: "tryUpload srv pid ?b ?m content p s2 = (r2, a2, s3)"
            by (cases "tryUpload srv pid ?b ?m content p s2")
          note p2 = tryUpload_props [OF t2]
          have pbs: "probeRootFolderId srv pid now s1 = (Some p, plog, s2)"
            using pb Some by simp
          have shape: "atts = [a1, a2] \<and> probed = Some plog \<and>
              res = (case r2 of None \<Rightarrow> Inl Exception | Some r2' \<Rightarrow> finish_upload r2')"
            using run True \<open>r1 = Some r1'\<close> Some fnf
            by (simp add: uploadFile_def Let_def root t1 pb t2 split: option.splits)
          have ex: "\<exists>s1 p' plog' s2. probeRootFolderId srv pid now s1 = (Some p', plog', s2)
                \<and> probed = Some plog'
                \<and> fst (atts ! 1) = (fst (atts ! 0))\<lparr>req_folder := p'\<rparr>
                \<and> p' \<noteq> req_folder (fst (atts ! 0))"
            using pbs shape p1 p2 True
            by (intro exI [of _ s1] exI [of _ p] exI [of _ plog] exI [of _ s2]) simp
          have f1: "is_folder_not_found (try_reply (snd (atts ! 0)))"
            using shape p1 \<open>r1 = Some r1'\<close> fnf by (auto simp: is_folder_not_found_def)
          have last: "is_failure (try_reply (snd (last atts))) \<longrightarrow> isl res"
            using shape p2 by (cases r2) (auto simp: is_failure_def finish_upload_fail)
          from shape ex f1 last show ?thesis by simp
        qed
      qed
    qed
  qed
qed

theorem uploadFile_retry_witness:
  "(let r = uploadFile (demo_remote ''507f1f77bcf86cd700000001'' Throws) 7
              ''507f1f77bcf86cd700000003'' None ''main.tex'' ''text'' ()
    in length (fst (snd r)) = 2
       \<and> is_folder_not_found (try_reply (snd (fst (snd r) ! 0)))
       \<and> map (req_folder \<circ> fst) (fst (snd r))
          = [''507f1f77bcf86cd700000002'', ''507f1f77bcf86cd700000001'']
       \<and> \<not> isl (fst r))
   \<and> (let r = uploadFile (demo_service (\<lambda>rq. Http False 500 ''no'' None) Throws) 7
                ''507f1f77bcf86cd700000003'' None ''main.tex'' ''text'' ()
      in is_failure (try_reply (snd (fst (snd r) ! 0)))
         \<and> \<not> is_folder_not_found (try_reply (snd (fst (snd r) ! 0)))
         \<and> length (fst (snd r)) = 1 \<and> fst (snd (snd r)) = None \<and> isl (fst r))"
proof -
  define r where "r = uploadFile (demo_remote ''507f1f77bcf86cd700000001'' Throws) 7
              ''507f1f77bcf86cd700000003'' None ''main.tex'' ''text'' ()"
  define q where "q = uploadFile (demo_service (\<lambda>rq. Http False 500 ''no'' None) Throws) 7
                ''507f1f77bcf86cd700000003'' None ''main.tex'' ''text'' ()"
  have rr: "uploadFile (demo_remote ''507f1f77bcf86cd700000001'' Throws) 7
              ''507f1f77bcf86cd700000003'' None ''main.tex'' ''text'' ()
            = (fst r, fst (snd r), fst (snd (snd r)), snd (snd (snd r)))"
    by (simp add: r_def prod_eq_iff)
  have qq: "uploadFile (demo_service (\<lambda>rq. Http False 500 ''no'' None) Throws) 7
                ''507f1f77bcf86cd700000003'' None ''main.tex'' ''text'' ()
            = (fst q, fst (snd q), fst (snd (snd q)), snd (snd (snd q)))"
    by (simp add: q_def prod_eq_iff)
  have r2: "length (fst (snd r)) = 2" unfolding r_def by code_simp
  have r3: "map (req_folder \<circ> fst) (fst (snd r))
          = [''507f1f77bcf86cd700000002'', ''507f1f77bcf86cd700000001'']"
    unfolding r_def by code_simp
  have r4: "\<not> isl (fst r)" unfolding r_def by code_simp
  have q1: "is_failure (try_reply (snd (fst (snd q) ! 0)))
         \<and> \<not> is_folder_not_found (try_reply (snd (fst (snd q) ! 0)))"
    unfolding q_def by code_simp
  from uploadFile_retry [OF rr] r2 have a:
    "is_folder_not_found (try_reply (snd (fst (snd r) ! 0)))"
    by blast
  from uploadFile_retry [OF qq] q1 have b:
    "length (fst (snd q)) = 1 \<and> fst (snd (snd q)) = None \<and> isl (fst q)"
    by blast
  from r2 r3 r4 a q1 b show ?thesis
    unfolding r_def q_def Let_def by blast
qed

section \<open>Properties of the uploaded name\<close>

lemma split_on_nonempty: "split_on d xs \<noteq> []"
  by (induction xs) (auto split: list.splits)

lemma split_on_none: "d \<notin> set seg \<Longrightarrow> split_on d seg = [seg]"
  by (induction seg) auto

lemma split_on_append:
  "d \<notin> set seg \<Longrightarrow> split_on d (xs @ d # seg) = split_on d xs @ [seg]"
proof (induction xs)
  case Nil
  then show ?case by (simp add: split_on_none)
next
  case (Cons c cs)
  then show ?case
    using split_on_nonempty [of d cs] by (cases "split_on d cs") auto
qed

lemma pop_snoc: "pop (xs @ [x]) = Some x"
  by (simp add: pop_def)

lemma baseName_of_nested:
  "seg \<noteq> [] \<Longrightarrow> CHR ''/'' \<notin> set seg \<Longrightarrow> baseName_of (dir @ ''/'' @ seg) = seg"
  by (simp add: baseName_of_def split_on_append pop_snoc)

lemma baseName_of_plain:
  "CHR ''/'' \<notin> set name \<Longrightarrow> baseName_of name = name"
  by (simp add: baseName_of_def split_on_none pop_def)

lemma uploadFile_requests:
  assumes run: "uploadFile srv now pid folderId fileName content s = (res, atts, probed, s')"
  shows "atts \<noteq> []
     \<and> (\<forall>a\<in>set atts. req_name (fst a) = baseName_of fileName \<and> req_content (fst a) = content
                       \<and> req_project (fst a) = pid)
     \<and> (folderId = None \<longrightarrow> req_folder (fst (hd atts)) = fst (getRootFolderId srv pid s))"
proof -
  let ?b = "baseName_of fileName"
  let ?m = "mimeType_of (baseName_of fileName)"
  obtain tf s0 where root:
    "(case folderId of
        Some f \<Rightarrow> if f \<noteq> [] then (f, s) else getRootFolderId srv pid s
      | None \<Rightarrow> getRootFolderId srv pid s) = (tf, s0)"
    by (cases "(case folderId of
        Some f \<Rightarrow> if f \<noteq> [] then (f, s) else getRootFolderId srv pid s
      | None \<Rightarrow> getRootFolderId srv pid s)")
  obtain r1 a1 s1 where t1: "tryUpload srv pid ?b ?m content tf s0 = (r1, a1, s1)"
    by (cases "tryUpload srv pid ?b ?m content tf s0")
  note p1 = tryUpload_props [OF t1]
  obtain pr plog s2 where pb: "probeRootFolderId srv pid now s1 = (pr, plog, s2)"
    by (cases "probeRootFolderId srv pid now s1")
  obtain r2 a2 s3 where t2:
    "tryUpload srv pid ?b ?m content (case pr of Some p \<Rightarrow> p | None \<Rightarrow> []) s2 = (r2, a2, s3)"
    by (cases "tryUpload srv pid ?b ?m content (case pr of Some p \<Rightarrow> p | None \<Rightarrow> []) s2")
  note p2 = tryUpload_props [OF t2]
  have "atts = [a1] \<or> atts = [a1, a2]"
    using run t2 unfolding uploadFile_def Let_def root
    by (auto simp: t1 pb split: option.splits if_splits)
  moreover have "folderId = None \<Longrightarrow> tf = fst (getRootFolderId srv pid s)"
    using root by auto
  ultimately show ?thesis using p1 p2 by auto
qed

lemma push_loop_log:
  "push_loop srv now pid tree files cnt s = (cnt', lg, s') \<Longrightarrow>
     \<forall>x\<in>set lg. fst x \<in> relativePath ` set files \<and> snd x \<noteq> []
        \<and> (\<forall>a\<in>set (snd x). req_name (fst a) = baseName_of (fst x))
        \<and> (\<exists>s0. req_folder (fst (hd (snd x))) = fst (getRootFolderId srv pid s0))"
proof (induction files arbitrary: cnt s cnt' lg s')
  case Nil
  then show ?case by simp
next
  case (Cons fl files)
  show ?case
  proof (cases "readFileSync (path fl) tree")
    case (Inl e)
    with Cons.prems have "push_loop srv now pid tree files (fst cnt, snd cnt + 1) s = (cnt', lg, s')"
      by simp
    from Cons.IH [OF this] show ?thesis by auto
  next
    case (Inr content)
    obtain res atts probed s1 where up:
      "uploadFile srv now pid None (relativePath fl) content s = (res, atts, probed, s1)"
      by (cases "uploadFile srv now pid None (relativePath fl) content s")
    define cnt1 where "cnt1 = (case res of Inl e \<Rightarrow> (fst cnt, snd cnt + 1)
                                 | Inr r \<Rightarrow> (fst cnt + 1, snd cnt))"
    obtain cnt2 lg2 s2 where rec: "push_loop srv now pid tree files cnt1 s1 = (cnt2, lg2, s2)"
      by (cases "push_loop srv now pid tree files cnt1 s1")
    from Cons.prems Inr up rec have lg: "lg = (relativePath fl, atts) # lg2"
      by (simp add: Let_def cnt1_def)
    from uploadFile_requests [OF up] have
      "atts \<noteq> [] \<and> (\<forall>a\<in>set atts. req_name (fst a) = baseName_of (relativePath fl))
       \<and> (\<exists>s0. req_folder (fst (hd atts)) = fst (getRootFolderId srv pid s0))"
      by auto
    with Cons.IH [OF rec] lg show ?thesis by auto
  qed
qed

lemma sync_upload_log:
  "sync_upload srv now pid files s = (ex, lg, s') \<Longrightarrow>
     \<forall>x\<in>set lg. fst x \<in> fst ` set files \<and> snd x \<noteq> []
        \<and> (\<forall>a\<in>set (snd x). req_name (fst a) = baseName_of (fst x))
        \<and> (\<exists>s0. req_folder (fst (hd (snd x))) = fst (getRootFolderId srv pid s0))"
proof (induction files arbitrary: s ex lg s')
  case Nil
  then show ?case by simp
next
  case (Cons fl files)
  obtain res atts probed s1 where up:
    "uploadFile srv now pid None (fst fl) (snd fl) s = (res, atts, probed, s1)"
    by (cases "uploadFile srv now pid None (fst fl) (snd fl) s")
  from uploadFile_requests [OF up] have one:
    "atts \<noteq> [] \<and> (\<forall>a\<in>set atts. req_name (fst a) = baseName_of (fst fl))
     \<and> (\<exists>s0. req_folder (fst (hd atts)) = fst (getRootFolderId srv pid s0))"
    by auto
  show ?case
  proof (cases res)
    case (Inl e)
    with Cons.prems up have "lg = [(fst fl, atts)]" by simp
    with one show ?thesis by auto
  next
    case (Inr r)
    obtain ex2 lg2 s2 where rec: "sync_upload srv now pid files s1 = (ex2, lg2, s2)"
      by (cases "sync_upload srv now pid files s1")
    from Cons.prems up Inr rec have "lg = (fst fl, atts) # lg2" by simp
    with one Cons.IH [OF rec] show ?thesis by auto
  qed
qed

section \<open>Properties of push\<close>

lemma fold_appends:
  "(\<And>x acc. x \<in> set xs \<Longrightarrow> g x acc = acc @ h x) \<Longrightarrow> fold g xs acc = acc @ concat (map h xs)"
  by (induction xs arbitrary: acc) auto

lemma scanDir_local_files:
  "scanDir all lastPull n cur base acc =
     acc @ map fst (filter (\<lambda>x. is_candidate all lastPull (snd x)) (local_files n cur base))"
proof (induction all lastPull n cur base acc rule: scanDir.induct)
  case (1 all lastPull m c currentDir relativeBase filesToUpload)
  show ?case by simp
next
  case (2 all lastPull m entries currentDir relativeBase filesToUpload)
  let ?rel = "\<lambda>name. if relativeBase \<noteq> [] then relativeBase @ ''/'' @ name else name"
  let ?h = "\<lambda>(name, n).
        if startsWith_dot name then []
        else map fst (filter (\<lambda>x. is_candidate all lastPull (snd x))
               (case n of
                  Dir dm des \<Rightarrow> local_files n (currentDir @ [name]) (?rel name)
                | File fm fc \<Rightarrow> [(\<lparr>path = currentDir @ [name], relativePath = ?rel name\<rparr>, fm)]))"
  let ?g = "\<lambda>(name, n) acc.
        if startsWith_dot name then acc
        else
          let fullPath = currentDir @ [name];
              relPath = (if relativeBase \<noteq> [] then relativeBase @ ''/'' @ name else name)
          in case n of
               Dir dm des \<Rightarrow> scanDir all lastPull n fullPath relPath acc
             | File fm fc \<Rightarrow>
                 if all \<or> lastPull = None
                 then acc @ [\<lparr>path = fullPath, relativePath = relPath\<rparr>]
                 else (case lastPull of
                         Some lp \<Rightarrow>
                           if lp < fm then acc @ [\<lparr>path = fullPath, relativePath = relPath\<rparr>]
                           else acc
                       | None \<Rightarrow> acc)"
  have step: "fold ?g entries filesToUpload = filesToUpload @ concat (map ?h entries)"
  proof (rule fold_appends)
    fix x acc assume x: "x \<in> set entries"
    obtain name n where xn: "x = (name, n)" by (cases x)
    show "?g x acc = acc @ ?h x"
    proof (cases "startsWith_dot name")
      case True
      then show ?thesis by (simp add: xn)
    next
      case False
      show ?thesis
      proof (cases n)
        case (File fm fc)
        with False show ?thesis
          by (auto simp: xn Let_def is_candidate_def split: option.splits)
      next
        case (Dir dm des)
        from 2 [OF x [unfolded xn] refl False refl refl Dir] False Dir show ?thesis
          by (simp add: xn Let_def)
      qed
    qed
  qed
  have "concat (map ?h entries)
        = map fst (filter (\<lambda>x. is_candidate all lastPull (snd x))
            (local_files (Dir m entries) currentDir relativeBase))"
    unfolding local_files.simps map_concat filter_concat map_map comp_def
    by (rule arg_cong [where f = concat], rule map_cong) (auto simp: Let_def)
  with step show ?case by simp
qed


lemma push_dryRun:
  assumes "push srv proj all True w s = (res, lg, w', s')"
  shows "lg = [] \<and> w' = w
     \<and> (\<forall>r. res = Inr r \<longrightarrow>
           r = (if scanDir all (lastPull_of w) (root w) [] [] [] = [] then NoFilesToUpload
                else WouldUpload (map relativePath (scanDir all (lastPull_of w) (root w) [] [] []))))"
  using assms unfolding push_def Let_def lastPull_of_def
  by (auto split: prod.splits sum.splits if_splits bool.splits)

text \<open>
  C4. The upload candidates of push are exactly the local files (the files the scan
  reaches, hidden entries left out) for which \<^verbatim>\<open>--all\<close> is set, or \<^verbatim>\<open>lastPull\<close> is
  absent, or the modification time is strictly after \<^verbatim>\<open>lastPull\<close>, in the order of
  the scan. With \<^verbatim>\<open>--dry-run\<close> push uploads nothing and leaves the directory and
  \<^verbatim>\<open>.olcli.json\<close> as they were; what it reports is the list of the candidates'
  relative paths, or that there are no files to upload when the list is empty.
\<close>

theorem push_candidates:
  "scanDir all lastPull n cur base []
     = map fst (filter (\<lambda>x. is_candidate all lastPull (snd x)) (local_files n cur base))
   \<and> is_candidate all lastPull m = (all \<or> lastPull = None \<or> (\<exists>lp. lastPull = Some lp \<and> lp < m))
   \<and> (push srv proj all True w s = (res, lg, w', s') \<longrightarrow>
        lg = [] \<and> w' = w
        \<and> (\<forall>r. res = Inr r \<longrightarrow>
              r = (if scanDir all (lastPull_of w) (root w) [] [] [] = [] then NoFilesToUpload
                   else WouldUpload
                          (map relativePath (scanDir all (lastPull_of w) (root w) [] [] [])))))"
proof -
  have a: "scanDir all lastPull n cur base []
     = map fst (filter (\<lambda>x. is_candidate all lastPull (snd x)) (local_files n cur base))"
    using scanDir_local_files [of all lastPull n cur base "[]"] by simp
  have b: "is_candidate all lastPull m
     = (all \<or> lastPull = None \<or> (\<exists>lp. lastPull = Some lp \<and> lp < m))"
    by (cases lastPull) (auto simp: is_candidate_def)
  from a b push_dryRun [of srv proj all w s res lg w' s'] show ?thesis by blast
qed

theorem push_candidates_witness:
  "map relativePath (scanDir False (Some 10) demo_tree [] [] [])
     = [''notes.tex'', ''figures/plot.png'']
   \<and> map (relativePath \<circ> fst) (local_files demo_tree [] [])
     = [''main.tex'', ''notes.tex'', ''figures/plot.png'']
   \<and> is_candidate False (Some 10) 20 \<and> \<not> is_candidate False (Some 10) 5
   \<and> push (demo_remote ''507f1f77bcf86cd700000002'' Throws) None False True demo_world ()
      = (Inr (WouldUpload [''notes.tex'', ''figures/plot.png'']), [], demo_world, ())"
proof -
  let ?D = "demo_remote ''507f1f77bcf86cd700000002'' Throws"
  define r where "r = push ?D None False True demo_world ()"
  have rr: "push ?D None False True demo_world ()
            = (fst r, fst (snd r), fst (snd (snd r)), snd (snd (snd r)))"
    by (simp add: r_def prod_eq_iff)
  note inst = push_candidates [where all = False and lastPull = "Some 10" and n = demo_tree
      and cur = "[]" and base = "[]" and srv = "?D" and proj = None and w = demo_world
      and s = "()" and res = "fst r" and lg = "fst (snd r)" and w' = "fst (snd (snd r))"
      and s' = "snd (snd (snd r))"]
  have lf: "map fst (filter (\<lambda>x. is_candidate False (Some 10) (snd x))
               (local_files demo_tree [] []))
            = [\<lparr>path = [''notes.tex''], relativePath = ''notes.tex''\<rparr>,
               \<lparr>path = [''figures'', ''plot.png''], relativePath = ''figures/plot.png''\<rparr>]"
    by code_simp
  have all_files: "map (relativePath \<circ> fst) (local_files demo_tree [] [])
     = [''main.tex'', ''notes.tex'', ''figures/plot.png'']"
    by code_simp
  from inst lf have sd: "scanDir False (Some 10) demo_tree [] [] []
            = [\<lparr>path = [''notes.tex''], relativePath = ''notes.tex''\<rparr>,
               \<lparr>path = [''figures'', ''plot.png''], relativePath = ''figures/plot.png''\<rparr>]"
    by simp
  have c1: "is_candidate False (Some 10) 20 \<and> \<not> is_candidate False (Some 10) 5"
    using inst [where m = 20] inst [where m = 5] by simp
  have ok: "fst r = Inr (WouldUpload [''notes.tex'', ''figures/plot.png''])"
    unfolding r_def by code_simp
  from inst rr have "fst (snd r) = [] \<and> fst (snd (snd r)) = demo_world" by blast
  with ok have "r = (Inr (WouldUpload [''notes.tex'', ''figures/plot.png'']), [], demo_world, ())"
    by (simp add: prod_eq_iff)
  with sd all_files c1 show ?thesis unfolding r_def by simp
qed

section \<open>The scan and the tree\<close>

lemma segments_empty: "segments [] = []"
  by (simp add: segments_def)

lemma segments_child:
  "valid_name name \<Longrightarrow>
   segments (if base \<noteq> [] then base @ ''/'' @ name else name) = segments base @ [name]"
  by (auto simp: segments_def valid_name_def split_on_append split_on_none)

lemma update_mem: "x \<in> set (AList.update k v al) \<Longrightarrow> x = (k, v) \<or> x \<in> set al"
  by (induction al) (auto split: if_splits)

lemma scanLocalFiles_lookup:
  "valid_tree n \<Longrightarrow> x \<in> set (scanLocalFiles n base acc) \<Longrightarrow>
     x \<in> set acc
     \<or> (\<exists>ps. ps \<noteq> [] \<and> segments (fst x) = segments base @ ps
              \<and> lookup ps n = Some (File (fst (snd x)) (snd (snd x))))"
proof (induction n base acc arbitrary: x rule: scanLocalFiles.induct)
  case (1 m c relativeBase localFiles)
  then show ?case by simp
next
  case (2 m entries relativeBase localFiles)
  let ?g = "\<lambda>(name, n) acc.
        if startsWith_dot name then acc
        else
          let relPath = (if relativeBase \<noteq> [] then relativeBase @ ''/'' @ name else name)
          in case n of
               Dir dm des \<Rightarrow> scanLocalFiles n relPath acc
             | File fm fc \<Rightarrow> AList.update relPath (fm, fc) acc"
  let ?P = "\<lambda>acc. \<forall>y\<in>set acc. y \<in> set localFiles
     \<or> (\<exists>ps. ps \<noteq> [] \<and> segments (fst y) = segments relativeBase @ ps
              \<and> lookup ps (Dir m entries) = Some (File (fst (snd y)) (snd (snd y))))"
  have "?P (fold ?g entries localFiles)"
  proof (rule fold_invariant [where Q = "\<lambda>e. e \<in> set entries" and P = ?P])
    show "\<And>e. e \<in> set entries \<Longrightarrow> e \<in> set entries" by simp
    show "?P localFiles" by simp
  next
    fix e :: "string \<times> node" and acc :: "(string \<times> nat \<times> string) list"
    assume e: "e \<in> set entries" and acc: "?P acc"
    obtain name ch where en: "e = (name, ch)" by (cases e)
    from "2.prems"(1) e en have vn: "valid_name name" and vc: "valid_tree ch"
      and dn: "distinct (map fst entries)"
      by auto
    from dn e en have mo: "map_of entries name = Some ch" by simp
    let ?rel = "if relativeBase \<noteq> [] then relativeBase @ ''/'' @ name else name"
    have sg: "segments ?rel = segments relativeBase @ [name]"
      using segments_child [OF vn, of relativeBase] by simp
    show "?P (?g e acc)"
    proof (cases "startsWith_dot name")
      case True
      with acc show ?thesis by (simp add: en)
    next
      case False
      show ?thesis
      proof (cases ch)
        case (File fm fc)
        have "\<forall>y\<in>set (AList.update ?rel (fm, fc) acc). y \<in> set localFiles
           \<or> (\<exists>ps. ps \<noteq> [] \<and> segments (fst y) = segments relativeBase @ ps
              \<and> lookup ps (Dir m entries) = Some (File (fst (snd y)) (snd (snd y))))"
        proof
          fix y assume "y \<in> set (AList.update ?rel (fm, fc) acc)"
          from update_mem [OF this] show "y \<in> set localFiles
           \<or> (\<exists>ps. ps \<noteq> [] \<and> segments (fst y) = segments relativeBase @ ps
              \<and> lookup ps (Dir m entries) = Some (File (fst (snd y)) (snd (snd y))))"
          proof
            assume y: "y = (?rel, fm, fc)"
            have "[name] \<noteq> [] \<and> segments (fst y) = segments relativeBase @ [name]
              \<and> lookup [name] (Dir m entries) = Some (File (fst (snd y)) (snd (snd y)))"
              using sg mo File y by simp
            then show ?thesis by blast
          next
            assume "y \<in> set acc"
            with acc show ?thesis by blast
          qed
        qed
        with False File show ?thesis by (simp add: en Let_def)
      next
        case (Dir dm des)
        have "\<forall>y\<in>set (scanLocalFiles ch ?rel acc). y \<in> set localFiles
           \<or> (\<exists>ps. ps \<noteq> [] \<and> segments (fst y) = segments relativeBase @ ps
              \<and> lookup ps (Dir m entries) = Some (File (fst (snd y)) (snd (snd y))))"
        proof
          fix y assume y: "y \<in> set (scanLocalFiles ch ?rel acc)"
          from "2.IH" [OF e [unfolded en] refl False refl Dir vc y]
          show "y \<in> set localFiles
           \<or> (\<exists>ps. ps \<noteq> [] \<and> segments (fst y) = segments relativeBase @ ps
              \<and> lookup ps (Dir m entries) = Some (File (fst (snd y)) (snd (snd y))))"
          proof
            assume "y \<in> set acc"
            with acc show ?thesis by blast
          next
            assume "\<exists>ps. ps \<noteq> [] \<and> segments (fst y) = segments ?rel @ ps
              \<and> lookup ps ch = Some (File (fst (snd y)) (snd (snd y)))"
            then obtain ps where ps: "ps \<noteq> []" "segments (fst y) = segments ?rel @ ps"
              "lookup ps ch = Some (File (fst (snd y)) (snd (snd y)))"
              by blast
            have "name # ps \<noteq> [] \<and> segments (fst y) = segments relativeBase @ (name # ps)
              \<and> lookup (name # ps) (Dir m entries) = Some (File (fst (snd y)) (snd (snd y)))"
              using ps sg mo by simp
            then show ?thesis by blast
          qed
        qed
        with False Dir show ?thesis by (simp add: en Let_def)
      qed
    qed
  qed
  with "2.prems"(2) show ?case by simp
qed

lemma localFiles_of_lookup:
  assumes "valid_tree (root w)" and "map_of (localFiles_of w) p = Some (m, c)"
  shows "lookup (segments p) (root w) = Some (File m c)"
proof -
  from assms(2) have mem: "(p, m, c) \<in> set (localFiles_of w)" by (rule map_of_SomeD)
  then have "meta_file w \<noteq> None" by (auto simp: localFiles_of_def split: if_splits)
  with mem have "(p, m, c) \<in> set (scanLocalFiles (root w) [] [])"
    by (simp add: localFiles_of_def)
  from scanLocalFiles_lookup [OF assms(1) this] show ?thesis
    by (auto simp: segments_empty)
qed


lemma local_files_base_name:
  "valid_tree n \<Longrightarrow> x \<in> set (local_files n cur base) \<Longrightarrow>
     path (fst x) \<noteq> [] \<and> baseName_of (relativePath (fst x)) = last (path (fst x))"
proof (induction n cur base arbitrary: x rule: local_files.induct)
  case (1 m c currentDir relativeBase)
  then show ?case by simp
next
  case (2 m entries currentDir relativeBase)
  from "2.prems"(2) obtain e where e: "e \<in> set entries"
    and x: "x \<in> set ((\<lambda>(name, n).
        if startsWith_dot name then []
        else
          let fullPath = currentDir @ [name];
              relPath = (if relativeBase \<noteq> [] then relativeBase @ ''/'' @ name else name)
          in case n of
               Dir dm des \<Rightarrow> local_files n fullPath relPath
             | File fm fc \<Rightarrow> [(\<lparr>path = fullPath, relativePath = relPath\<rparr>, fm)]) e)"
    by auto
  obtain name ch where en: "e = (name, ch)" by (cases e)
  from "2.prems"(1) e en have vn: "valid_name name" and vc: "valid_tree ch" by auto
  from x en have nh: "\<not> startsWith_dot name" by (auto split: if_splits)
  let ?rel = "if relativeBase \<noteq> [] then relativeBase @ ''/'' @ name else name"
  have bn: "baseName_of ?rel = name"
    using vn baseName_of_nested [of name relativeBase] baseName_of_plain [of name]
    by (auto simp: valid_name_def)
  show ?case
  proof (cases ch)
    case (File fm fc)
    with x en nh have "x = (\<lparr>path = currentDir @ [name], relativePath = ?rel\<rparr>, fm)"
      by (simp add: Let_def)
    with bn show ?thesis by simp
  next
    case (Dir dm des)
    with x en nh have "x \<in> set (local_files ch (currentDir @ [name]) ?rel)"
      by (simp add: Let_def)
    from "2.IH" [OF e [unfolded en] refl nh refl refl Dir vc this] show ?thesis .
  qed
qed

lemma scanDir_base_name:
  "valid_tree n \<longrightarrow>
     (\<forall>c\<in>set (scanDir all lastPull n cur base []).
        path c \<noteq> [] \<and> baseName_of (relativePath c) = last (path c))"
proof (intro impI ballI)
  fix c assume v: "valid_tree n" and c: "c \<in> set (scanDir all lastPull n cur base [])"
  from c obtain x where "x \<in> set (local_files n cur base)" "c = fst x"
    unfolding scanDir_local_files [of all lastPull n cur base "[]"] by auto
  with local_files_base_name [OF v] show "path c \<noteq> [] \<and> baseName_of (relativePath c) = last (path c)"
    by blast
qed

text \<open>
  C9, amended. \<^verbatim>\<open>uploadFile\<close> names the uploaded file \<open>baseName_of fileName\<close> in every
  request it sends, and with a null folder its first request goes to the folder that
  \<^verbatim>\<open>getRootFolderId\<close> resolves. For a name \<open>dir/seg\<close> whose last piece \<open>seg\<close> is not
  empty, that name is \<open>seg\<close>. The upload loops of push and of sync call it with a null
  folder and the relative path, so every upload they send carries the base name of the
  relative path and starts at the resolved root folder. For the candidates that push
  finds in a valid tree this base name is the file's own name, the last name of its path.
\<close>

theorem upload_base_name:
  "(uploadFile srv now pid folderId fileName content s = (res, atts, probed, s') \<longrightarrow>
      (\<forall>a\<in>set atts. req_name (fst a) = baseName_of fileName)
      \<and> (folderId = None \<longrightarrow> req_folder (fst (hd atts)) = fst (getRootFolderId srv pid s)))
   \<and> (seg \<noteq> [] \<and> CHR ''/'' \<notin> set seg \<longrightarrow> baseName_of (dir @ ''/'' @ seg) = seg)
   \<and> (push_loop srv now pid tree files cnt s = (cnt', lg, sp) \<longrightarrow>
        (\<forall>x\<in>set lg. fst x \<in> relativePath ` set files
           \<and> (\<forall>a\<in>set (snd x). req_name (fst a) = baseName_of (fst x))
           \<and> (\<exists>s0. req_folder (fst (hd (snd x))) = fst (getRootFolderId srv pid s0))))
   \<and> (sync_upload srv now pid queue s = (ex, lg', sq) \<longrightarrow>
        (\<forall>x\<in>set lg'. fst x \<in> fst ` set queue
           \<and> (\<forall>a\<in>set (snd x). req_name (fst a) = baseName_of (fst x))
           \<and> (\<exists>s0. req_folder (fst (hd (snd x))) = fst (getRootFolderId srv pid s0))))
   \<and> (valid_tree n \<longrightarrow>
        (\<forall>c\<in>set (scanDir all lastPull n cur base []).
           path c \<noteq> [] \<and> baseName_of (relativePath c) = last (path c)))"
proof -
  have a: "uploadFile srv now pid folderId fileName content s = (res, atts, probed, s') \<longrightarrow>
      (\<forall>a\<in>set atts. req_name (fst a) = baseName_of fileName)
      \<and> (folderId = None \<longrightarrow> req_folder (fst (hd atts)) = fst (getRootFolderId srv pid s))"
    using uploadFile_requests [of srv now pid folderId fileName content s res atts probed s']
    by blast
  have b: "seg \<noteq> [] \<and> CHR ''/'' \<notin> set seg \<longrightarrow> baseName_of (dir @ ''/'' @ seg) = seg"
    using baseName_of_nested by blast
  have c: "push_loop srv now pid tree files cnt s = (cnt', lg, sp) \<longrightarrow>
        (\<forall>x\<in>set lg. fst x \<in> relativePath ` set files
           \<and> (\<forall>a\<in>set (snd x). req_name (fst a) = baseName_of (fst x))
           \<and> (\<exists>s0. req_folder (fst (hd (snd x))) = fst (getRootFolderId srv pid s0)))"
    using push_loop_log [of srv now pid tree files cnt s cnt' lg sp] by blast
  have d: "sync_upload srv now pid queue s = (ex, lg', sq) \<longrightarrow>
        (\<forall>x\<in>set lg'. fst x \<in> fst ` set queue
           \<and> (\<forall>a\<in>set (snd x). req_name (fst a) = baseName_of (fst x))
           \<and> (\<exists>s0. req_folder (fst (hd (snd x))) = fst (getRootFolderId srv pid s0)))"
    using sync_upload_log [of srv now pid queue s ex lg' sq] by blast
  have e: "valid_tree n \<longrightarrow>
        (\<forall>c\<in>set (scanDir all lastPull n cur base []).
           path c \<noteq> [] \<and> baseName_of (relativePath c) = last (path c))"
    using scanDir_base_name [of n all lastPull cur base] by blast
  from a b c d e show ?thesis by blast
qed

theorem upload_base_name_witness:
  "(let r = uploadFile (demo_remote ''507f1f77bcf86cd700000001'' Throws) 7
              ''507f1f77bcf86cd700000003'' None ''figures/plot.png'' ''PNG'' ()
    in map (req_name \<circ> fst) (fst (snd r)) = [''plot.png'', ''plot.png'']
       \<and> req_name (fst (hd (fst (snd r)))) = baseName_of ''figures/plot.png''
       \<and> req_folder (fst (hd (fst (snd r)))) = ''507f1f77bcf86cd700000002'')
   \<and> baseName_of (''figures'' @ ''/'' @ ''plot.png'') = ''plot.png''
   \<and> (let lg = fst (snd (push_loop (demo_remote ''507f1f77bcf86cd700000001'' Throws) 7
                     ''507f1f77bcf86cd700000003''
                     (Dir 0 [(''figures'', Dir 0 [(''plot.png'', File 5 ''PNG'')])])
                     [\<lparr>path = [''figures'', ''plot.png''], relativePath = ''figures/plot.png''\<rparr>]
                     (0, 0) ()))
      in map fst lg = [''figures/plot.png'']
         \<and> req_name (fst (hd (snd (hd lg)))) = baseName_of (fst (hd lg)))
   \<and> (let lg = fst (snd (sync_upload (demo_remote ''507f1f77bcf86cd700000001'' Throws) 7
                     ''507f1f77bcf86cd700000003'' [(''figures/plot.png'', ''PNG'')] ()))
      in map fst lg = [''figures/plot.png'']
         \<and> req_name (fst (hd (snd (hd lg)))) = baseName_of (fst (hd lg)))
   \<and> valid_tree demo_tree
   \<and> map (\<lambda>c. baseName_of (relativePath c)) (scanDir True None demo_tree [] [] [])
      = [''main.tex'', ''notes.tex'', ''plot.png'']
   \<and> baseName_of (relativePath (last (scanDir True None demo_tree [] [] [])))
      = last (path (last (scanDir True None demo_tree [] [] [])))"
proof -
  let ?D = "demo_remote ''507f1f77bcf86cd700000001'' Throws"
  let ?pid = "''507f1f77bcf86cd700000003''"
  let ?tree = "Dir 0 [(''figures'', Dir 0 [(''plot.png'', File 5 ''PNG'')])]"
  let ?files = "[\<lparr>path = [''figures'', ''plot.png''], relativePath = ''figures/plot.png''\<rparr>]"
  define r where "r = uploadFile ?D 7 ?pid None ''figures/plot.png'' ''PNG'' ()"
  define p where "p = push_loop ?D 7 ?pid ?tree ?files (0, 0) ()"
  define q where "q = sync_upload ?D 7 ?pid [(''figures/plot.png'', ''PNG'')] ()"
  have rr: "uploadFile ?D 7 ?pid None ''figures/plot.png'' ''PNG'' ()
            = (fst r, fst (snd r), fst (snd (snd r)), snd (snd (snd r)))"
    by (simp add: r_def prod_eq_iff)
  have pp: "push_loop ?D 7 ?pid ?tree ?files (0, 0) () = (fst p, fst (snd p), snd (snd p))"
    by (simp add: p_def prod_eq_iff)
  have qq: "sync_upload ?D 7 ?pid [(''figures/plot.png'', ''PNG'')] ()
            = (fst q, fst (snd q), snd (snd q))"
    by (simp add: q_def prod_eq_iff)
  have seg: "''plot.png'' \<noteq> [] \<and> CHR ''/'' \<notin> set ''plot.png''" by simp
  note inst = upload_base_name [where srv = "?D" and now = 7 and pid = "?pid"
      and folderId = None and fileName = "''figures/plot.png''" and content = "''PNG''"
      and s = "()" and res = "fst r" and atts = "fst (snd r)" and probed = "fst (snd (snd r))"
      and s' = "snd (snd (snd r))" and seg = "''plot.png''" and dir = "''figures''"
      and tree = "?tree" and files = "?files" and cnt = "(0, 0)"
      and cnt' = "fst p" and lg = "fst (snd p)" and sp = "snd (snd p)"
      and queue = "[(''figures/plot.png'', ''PNG'')]"
      and ex = "fst q" and lg' = "fst (snd q)" and sq = "snd (snd q)"
      and n = demo_tree and all = True and lastPull = None and cur = "[]" and base = "[]"]
  have r1: "map (req_name \<circ> fst) (fst (snd r)) = [''plot.png'', ''plot.png'']"
    unfolding r_def by code_simp
  have r2: "getRootFolderId ?D ?pid () = (''507f1f77bcf86cd700000002'', ())"
    by code_simp
  have p1: "map fst (fst (snd p)) = [''figures/plot.png'']"
    unfolding p_def by code_simp
  have q1: "map fst (fst (snd q)) = [''figures/plot.png'']"
    unfolding q_def by code_simp
  from r1 have rne: "hd (fst (snd r)) \<in> set (fst (snd r))" by (cases "fst (snd r)") auto
  from p1 have pne: "hd (fst (snd p)) \<in> set (fst (snd p))" by (cases "fst (snd p)") auto
  from q1 have qne: "hd (fst (snd q)) \<in> set (fst (snd q))" by (cases "fst (snd q)") auto
  from inst rr rne r2 have a:
    "req_name (fst (hd (fst (snd r)))) = baseName_of ''figures/plot.png''
     \<and> req_folder (fst (hd (fst (snd r)))) = ''507f1f77bcf86cd700000002''"
    by simp
  from inst seg have b: "baseName_of (''figures'' @ ''/'' @ ''plot.png'') = ''plot.png''"
    by blast
  from inst pp pne have c0: "snd (hd (fst (snd p))) \<noteq> [] \<longrightarrow>
      req_name (fst (hd (snd (hd (fst (snd p)))))) = baseName_of (fst (hd (fst (snd p))))"
    by (metis hd_in_set)
  have c1: "snd (hd (fst (snd p))) \<noteq> []" unfolding p_def by code_simp
  from inst qq qne have d0: "snd (hd (fst (snd q))) \<noteq> [] \<longrightarrow>
      req_name (fst (hd (snd (hd (fst (snd q)))))) = baseName_of (fst (hd (fst (snd q))))"
    by (metis hd_in_set)
  have d1: "snd (hd (fst (snd q))) \<noteq> []" unfolding q_def by code_simp
  have v: "valid_tree demo_tree" by code_simp
  have names: "map (\<lambda>c. baseName_of (relativePath c)) (scanDir True None demo_tree [] [] [])
      = [''main.tex'', ''notes.tex'', ''plot.png'']"
    by code_simp
  have "scanDir True None demo_tree [] [] [] \<noteq> []" by code_simp
  then have "last (scanDir True None demo_tree [] [] []) \<in> set (scanDir True None demo_tree [] [] [])"
    by (rule last_in_set)
  with inst v have e: "baseName_of (relativePath (last (scanDir True None demo_tree [] [] [])))
      = last (path (last (scanDir True None demo_tree [] [] [])))"
    by blast
  from r1 a b p1 c0 c1 q1 d0 d1 v names e show ?thesis
    unfolding r_def p_def q_def Let_def by blast
qed

text \<open>
  C9 as stated fails for a file name that ends with a slash: the last piece is empty
  and the whole name is sent.
\<close>

theorem upload_base_name_counterexample:
  "pop (split_on (CHR ''/'') ''figures/'') = Some []
   \<and> map (req_name \<circ> fst)
        (fst (snd (uploadFile (demo_remote ''507f1f77bcf86cd700000002'' Throws) 7
                     ''507f1f77bcf86cd700000003'' None ''figures/'' ''x'' ())))
      = [''figures/'']"
proof -
  have a: "pop (split_on (CHR ''/'') ''figures/'') = Some []" by code_simp
  have b: "map (req_name \<circ> fst)
        (fst (snd (uploadFile (demo_remote ''507f1f77bcf86cd700000002'' Throws) 7
                     ''507f1f77bcf86cd700000003'' None ''figures/'' ''x'' ())))
      = [''figures/'']"
    by code_simp
  from a b show ?thesis by blast
qed

section \<open>The stages of pull and sync\<close>

text \<open>
  Either the command ends before the archive is there, with an error and the world
  untouched, or the download gave the entries and the command is its loops on them.
\<close>

lemma pull_result:
  obtains (early) e s' where "pull srv proj force w s = (Inl e, w, s')" "\<forall>x. e \<noteq> FsError x"
  | (ran) pr :: project and s2 s3 entries ex tree cnt where
      "downloadProject srv s2 (p_id pr) = (Returns entries, s3)"
      "pull_loop force (lastPull_of w) (clock w) entries
         (root w, \<lparr>fileCount = 0, skippedCount = 0, skippedFiles = []\<rparr>) = (ex, tree, cnt)"
      "pull srv proj force w s =
         (case ex of
            Some e \<Rightarrow> (Inl (FsError e), w\<lparr>root := tree\<rparr>, s3)
          | None \<Rightarrow>
              (Inr cnt,
               w\<lparr>root := tree,
                 meta_file := Some \<lparr>m_projectId = p_id pr, m_projectName = p_name pr,
                   m_lastPull = Some (clock w), m_lastPush = None, m_lastSync = None\<rparr>\<rparr>,
               s3))"
proof (cases "\<not> truthy proj \<and> meta_file w = None")
  case True
  then show ?thesis by (intro early [of NoProjectSpecified s]) (simp_all add: pull_def)
next
  case False
  then have started: "(\<not> truthy proj \<and> meta_file w = None) = False" by simp
  obtain b s1 where gc: "get_client srv s = (b, s1)" by (cases "get_client srv s")
  show ?thesis
  proof (cases b)
    case False
    with gc show ?thesis by (intro early [of ClientFailed s1]) (simp_all add: pull_def started)
  next
    case True
    let ?id = "(case meta_file w of
                 Some m \<Rightarrow>
                   if \<not> truthy proj \<and> m_projectId m \<noteq> []
                   then (Inr \<lparr>p_id = m_projectId m, p_name = m_projectName m\<rparr>, s1)
                   else resolve_project srv proj s1
               | None \<Rightarrow> resolve_project srv proj s1)"
    obtain ident s2 where idt: "?id = (ident, s2)" by (cases ?id)
    show ?thesis
    proof (cases ident)
      case (Inl e)
      have "\<forall>x. e \<noteq> FsError x"
        using idt Inl
        by (auto simp: resolve_project_def
            split: option.splits if_splits prod.splits outcome.splits)
      with gc True idt Inl show ?thesis by (intro early [of e s2]) (simp_all add: pull_def started)
    next
      case (Inr pr)
      obtain d s3 where dl: "downloadProject srv s2 (p_id pr) = (d, s3)"
        by (cases "downloadProject srv s2 (p_id pr)")
      show ?thesis
      proof (cases d)
        case Throws
        with gc True idt Inr dl show ?thesis
          by (intro early [of DownloadFailed s3]) (simp_all add: pull_def started)
      next
        case (Returns entries)
        obtain ex tree cnt where lp:
          "pull_loop force (lastPull_of w) (clock w) entries
              (root w, \<lparr>fileCount = 0, skippedCount = 0, skippedFiles = []\<rparr>) = (ex, tree, cnt)"
          by (cases "pull_loop force (lastPull_of w) (clock w) entries
              (root w, \<lparr>fileCount = 0, skippedCount = 0, skippedFiles = []\<rparr>)")
        have C: "pull srv proj force w s =
             (case ex of
                Some e \<Rightarrow> (Inl (FsError e), w\<lparr>root := tree\<rparr>, s3)
              | None \<Rightarrow>
                  (Inr cnt,
                   w\<lparr>root := tree,
                     meta_file := Some \<lparr>m_projectId = p_id pr, m_projectName = p_name pr,
                       m_lastPull = Some (clock w), m_lastPush = None, m_lastSync = None\<rparr>\<rparr>,
                   s3))"
          using gc True idt Inr dl Returns lp [unfolded lastPull_of_def]
          by (simp add: pull_def started)
        have A: "downloadProject srv s2 (p_id pr) = (Returns entries, s3)"
          using dl Returns by simp
        from A lp C show ?thesis by (rule ran)
      qed
    qed
  qed
qed

lemma sync_result:
  obtains (early) e s' where "sync srv proj w s = (Inl e, [], w, s')"
      "\<forall>x. e \<noteq> FsError x" "\<forall>x. e \<noteq> UploadError x"
  | (ran) pr :: project and s2 s3 entries ex tree ls where
      "downloadProject srv s2 (p_id pr) = (Returns entries, s3)"
      "sync_plan w entries = (ex, tree, ls)"
      "sync srv proj w s =
         (case ex of
            Some e \<Rightarrow> (Inl (FsError e), [], w\<lparr>root := tree\<rparr>, s3)
          | None \<Rightarrow>
              (case sync_upload srv (clock w) (p_id pr) (filesToUpload ls) s3 of
                 (Some e, lg, s4) \<Rightarrow> (Inl (UploadError e), lg, w\<lparr>root := tree\<rparr>, s4)
               | (None, lg, s4) \<Rightarrow>
                   (Inr ls, lg,
                    w\<lparr>root := tree,
                      meta_file := Some \<lparr>m_projectId = p_id pr, m_projectName = p_name pr,
                        m_lastPull = Some (clock w), m_lastPush = None,
                        m_lastSync = Some (clock w)\<rparr>\<rparr>,
                    s4)))"
proof -
  obtain projectId projectName where bp: "bound_project proj w = (projectId, projectName)"
    by (cases "bound_project proj w")
  note unf = sync_def Let_def bp
  show ?thesis
  proof (cases "\<not> truthy projectId \<and> \<not> truthy projectName")
    case True
    then show ?thesis by (intro early [of NoProjectSpecified s]) (simp_all add: unf)
  next
    case False
    then have started: "(\<not> truthy projectId \<and> \<not> truthy projectName) = False" by simp
    obtain b s1 where gc: "get_client srv s = (b, s1)" by (cases "get_client srv s")
    show ?thesis
    proof (cases b)
      case False
      with gc show ?thesis by (intro early [of ClientFailed s1]) (simp_all add: unf started)
    next
      case True
      let ?id = "(case projectId of
                    Some i \<Rightarrow>
                      if i \<noteq> []
                      then (Inr \<lparr>p_id = i, p_name = (case projectName of Some n \<Rightarrow> n | None \<Rightarrow> [])\<rparr>, s1)
                      else resolve_project srv projectName s1
                  | None \<Rightarrow> resolve_project srv projectName s1)"
      obtain ident s2 where idt: "?id = (ident, s2)" by (cases ?id)
      show ?thesis
      proof (cases ident)
        case (Inl e)
        have "(\<forall>x. e \<noteq> FsError x) \<and> (\<forall>x. e \<noteq> UploadError x)"
          using idt Inl
          by (auto simp: resolve_project_def
              split: option.splits if_splits prod.splits outcome.splits)
        with gc True idt Inl show ?thesis
          by (intro early [of e s2]) (simp_all add: unf started)
      next
        case (Inr pr)
        obtain d s3 where dl: "downloadProject srv s2 (p_id pr) = (d, s3)"
          by (cases "downloadProject srv s2 (p_id pr)")
        show ?thesis
        proof (cases d)
          case Throws
          with gc True idt Inr dl show ?thesis
            by (intro early [of DownloadFailed s3]) (simp_all add: unf started)
        next
          case (Returns entries)
          obtain ex tree ls where pl: "sync_plan w entries = (ex, tree, ls)"
            by (cases "sync_plan w entries")
          have A: "downloadProject srv s2 (p_id pr) = (Returns entries, s3)"
            using dl Returns by simp
          have C: "sync srv proj w s =
             (case ex of
                Some e \<Rightarrow> (Inl (FsError e), [], w\<lparr>root := tree\<rparr>, s3)
              | None \<Rightarrow>
                  (case sync_upload srv (clock w) (p_id pr) (filesToUpload ls) s3 of
                     (Some e, lg, s4) \<Rightarrow> (Inl (UploadError e), lg, w\<lparr>root := tree\<rparr>, s4)
                   | (None, lg, s4) \<Rightarrow>
                       (Inr ls, lg,
                        w\<lparr>root := tree,
                          meta_file := Some \<lparr>m_projectId = p_id pr, m_projectName = p_name pr,
                            m_lastPull = Some (clock w), m_lastPush = None,
                            m_lastSync = Some (clock w)\<rparr>\<rparr>,
                        s4)))"
            using gc True idt Inr A pl
            by (simp add: unf started split: option.splits prod.splits)
          from A pl C show ?thesis by (rule ran)
        qed
      qed
    qed
  qed
qed

text \<open>
  C8. When the download of the archive fails, pull and sync end with an error, the
  directory and \<^verbatim>\<open>.olcli.json\<close> are what they were before the call, and sync has
  sent no upload. This holds whenever the call ends with the download error, and a
  service whose download always fails makes every call end so (or earlier).
\<close>

theorem snapshot_failure:
  "(fst (pull srv proj force w s) = Inl DownloadFailed \<longrightarrow>
      fst (snd (pull srv proj force w s)) = w)
   \<and> (fst (sync srv proj w s) = Inl DownloadFailed \<longrightarrow>
        fst (snd (sync srv proj w s)) = [] \<and> fst (snd (snd (sync srv proj w s))) = w)
   \<and> ((\<forall>st pid. fst (downloadProject srv st pid) = Throws) \<longrightarrow>
        isl (fst (pull srv proj force w s)) \<and> fst (snd (pull srv proj force w s)) = w
        \<and> isl (fst (sync srv proj w s)) \<and> fst (snd (sync srv proj w s)) = []
        \<and> fst (snd (snd (sync srv proj w s))) = w)"
proof -
  have p: "(fst (pull srv proj force w s) = Inl DownloadFailed \<longrightarrow>
              fst (snd (pull srv proj force w s)) = w)
      \<and> ((\<forall>st pid. fst (downloadProject srv st pid) = Throws) \<longrightarrow>
            isl (fst (pull srv proj force w s)) \<and> fst (snd (pull srv proj force w s)) = w)"
  proof (cases rule: pull_result [of srv proj force w s])
    case (early e s')
    then show ?thesis by simp
  next
    case (ran pr s2 s3 entries ex tree cnt)
    have "\<not> (\<forall>st pid. fst (downloadProject srv st pid) = Throws)"
      using ran(1) by (metis fst_conv outcome.distinct(1))
    with ran(3) show ?thesis by (cases ex) auto
  qed
  have q: "(fst (sync srv proj w s) = Inl DownloadFailed \<longrightarrow>
        fst (snd (sync srv proj w s)) = [] \<and> fst (snd (snd (sync srv proj w s))) = w)
      \<and> ((\<forall>st pid. fst (downloadProject srv st pid) = Throws) \<longrightarrow>
        isl (fst (sync srv proj w s)) \<and> fst (snd (sync srv proj w s)) = []
        \<and> fst (snd (snd (sync srv proj w s))) = w)"
  proof (cases rule: sync_result [of srv proj w s])
    case (early e s')
    then show ?thesis by simp
  next
    case (ran pr s2 s3 entries ex tree ls)
    have "\<not> (\<forall>st pid. fst (downloadProject srv st pid) = Throws)"
      using ran(1) by (metis fst_conv outcome.distinct(1))
    with ran(3) show ?thesis by (cases ex) (auto split: prod.splits option.splits)
  qed
  from p q show ?thesis by blast
qed

theorem snapshot_failure_witness:
  "fst (downloadProject (demo_remote ''507f1f77bcf86cd700000002'' Throws) ()
          ''507f1f77bcf86cd700000003'') = Throws
   \<and> pull (demo_remote ''507f1f77bcf86cd700000002'' Throws) None False demo_world ()
      = (Inl DownloadFailed, demo_world, ())
   \<and> sync (demo_remote ''507f1f77bcf86cd700000002'' Throws) None demo_world ()
      = (Inl DownloadFailed, [], demo_world, ())"
proof -
  let ?D = "demo_remote ''507f1f77bcf86cd700000002'' Throws"
  have h: "\<forall>st pid. fst (downloadProject ?D st pid) = Throws"
    by (simp add: demo_remote_def demo_service_def)
  have p1: "fst (pull ?D None False demo_world ()) = Inl DownloadFailed" by code_simp
  have s1: "fst (sync ?D None demo_world ()) = Inl DownloadFailed" by code_simp
  note inst = snapshot_failure [where srv = "?D" and proj = None and force = False
      and w = demo_world and s = "()"]
  from inst p1 have p2: "fst (snd (pull ?D None False demo_world ())) = demo_world" by blast
  from inst s1 have s2: "fst (snd (sync ?D None demo_world ())) = []
      \<and> fst (snd (snd (sync ?D None demo_world ()))) = demo_world" by blast
  from h p1 p2 s1 s2 show ?thesis by (simp add: prod_eq_iff)
qed

section \<open>The local directory: reading after writing\<close>

lemma writeFileSync_lookup:
  "writeFileSync ps t c n = Inr n' \<Longrightarrow> lookup ps n' = Some (File t c)"
proof (induction ps arbitrary: n n')
  case Nil
  then show ?case by (cases n) auto
next
  case (Cons d ds)
  show ?case
  proof (cases n)
    case (File m x)
    with Cons.prems show ?thesis by simp
  next
    case (Dir m es)
    show ?thesis
    proof (cases "map_of es d")
      case None
      with Cons.prems Dir show ?thesis
        by (auto simp: update_conv' split: if_splits)
    next
      case (Some ch)
      with Cons.prems Dir obtain ch' where w: "writeFileSync ds t c ch = Inr ch'"
        and n': "n' = Dir m (AList.update d ch' es)"
        by (auto split: sum.splits)
      from Cons.IH [OF w] n' show ?thesis by (simp add: update_conv')
    qed
  qed
qed

lemma writeFileSync_other:
  "writeFileSync qs t c n = Inr n' \<Longrightarrow> lookup ps n = Some (File m x) \<Longrightarrow> ps \<noteq> qs
     \<Longrightarrow> lookup ps n' = Some (File m x)"
proof (induction qs arbitrary: ps n n')
  case Nil
  then show ?case by (cases n; cases ps) auto
next
  case (Cons q qs)
  show ?case
  proof (cases n)
    case (File fm fx)
    with Cons.prems show ?thesis by simp
  next
    case (Dir dm es)
    with Cons.prems(2) obtain p ps' where ps: "ps = p # ps'" by (cases ps) auto
    show ?thesis
    proof (cases "map_of es q")
      case None
      with Cons.prems Dir ps show ?thesis
        by (auto simp: update_conv' split: if_splits option.splits)
    next
      case (Some ch)
      with Cons.prems(1) Dir obtain ch' where w: "writeFileSync qs t c ch = Inr ch'"
        and n': "n' = Dir dm (AList.update q ch' es)"
        by (auto split: sum.splits)
      show ?thesis
      proof (cases "p = q")
        case True
        with Cons.prems(2,3) Dir ps Some have "lookup ps' ch = Some (File m x)" "ps' \<noteq> qs"
          by auto
        from Cons.IH [OF w this] True n' ps show ?thesis by (simp add: update_conv')
      next
        case False
        with Cons.prems(2) Dir ps n' show ?thesis by (simp add: update_conv')
      qed
    qed
  qed
qed

lemma mkdirSync_other:
  "mkdirSync qs t n = Inr n' \<Longrightarrow> lookup ps n = Some (File m x) \<Longrightarrow> lookup ps n' = Some (File m x)"
proof (induction qs arbitrary: ps n n')
  case Nil
  then show ?case by (cases n) auto
next
  case (Cons q qs)
  show ?case
  proof (cases n)
    case (File fm fx)
    with Cons.prems show ?thesis by simp
  next
    case (Dir dm es)
    with Cons.prems(2) obtain p ps' where ps: "ps = p # ps'" by (cases ps) auto
    show ?thesis
    proof (cases "map_of es q")
      case None
      with Cons.prems Dir ps show ?thesis
        by (auto simp: update_conv' split: if_splits option.splits)
    next
      case (Some ch)
      with Cons.prems(1) Dir obtain ch' where w: "mkdirSync qs t ch = Inr ch'"
        and n': "n' = Dir dm (AList.update q ch' es)"
        by (auto split: sum.splits)
      show ?thesis
      proof (cases "p = q")
        case True
        with Cons.prems(2) Dir ps Some have "lookup ps' ch = Some (File m x)" by auto
        from Cons.IH [OF w this] True n' ps show ?thesis by (simp add: update_conv')
      next
        case False
        with Cons.prems(2) Dir ps n' show ?thesis by (simp add: update_conv')
      qed
    qed
  qed
qed

section \<open>Properties of pull\<close>

lemma pull_entry_cases:
  assumes "pull_entry force lp now e (tree, cnt) = Inr (tree', cnt')"
  shows "(isDirectory e \<and> tree' = tree \<and> cnt' = cnt)
     \<or> (\<not> isDirectory e \<and> \<not> force
          \<and> (\<exists>n l. lookup (segments (entryName e)) tree = Some n \<and> lp = Some l \<and> l < mtime n)
          \<and> tree' = tree
          \<and> cnt' = cnt\<lparr>skippedCount := skippedCount cnt + 1,
                       skippedFiles := skippedFiles cnt @ [entryName e]\<rparr>)
     \<or> (\<not> isDirectory e
          \<and> \<not> (\<not> force
                \<and> (\<exists>n l. lookup (segments (entryName e)) tree = Some n \<and> lp = Some l \<and> l < mtime n))
          \<and> (\<exists>tree1. (tree1 = tree \<or> mkdirSync (butlast (segments (entryName e))) now tree = Inr tree1)
                \<and> writeFileSync (segments (entryName e)) now (getData e) tree1 = Inr tree')
          \<and> cnt' = cnt\<lparr>fileCount := fileCount cnt + 1\<rparr>)"
proof (cases "isDirectory e")
  case True
  with assms show ?thesis by (simp add: pull_entry_def)
next
  case False
  let ?ps = "segments (entryName e)"
  let ?skip = "\<not> force \<and> existsSync ?ps tree \<and> lp \<noteq> None
              \<and> (case lookup ?ps tree of
                    Some n \<Rightarrow> (case lp of Some l \<Rightarrow> l < mtime n | None \<Rightarrow> False)
                  | None \<Rightarrow> False)"
  have sk: "?skip \<longleftrightarrow> \<not> force
       \<and> (\<exists>n l. lookup ?ps tree = Some n \<and> lp = Some l \<and> l < mtime n)"
    by (auto simp: existsSync_def split: option.splits)
  show ?thesis
  proof (cases ?skip)
    case True
    with assms False have "tree' = tree
        \<and> cnt' = cnt\<lparr>skippedCount := skippedCount cnt + 1,
                      skippedFiles := skippedFiles cnt @ [entryName e]\<rparr>"
      by (simp add: pull_entry_def Let_def)
    with True False sk show ?thesis by blast
  next
    case nskip: False
    define r where "r = (if \<not> existsSync (butlast ?ps) tree
                         then mkdirSync (butlast ?ps) now tree else Inr tree)"
    from assms False nskip have ev: "(case r of
                Inl e \<Rightarrow> Inl e
              | Inr tree1 \<Rightarrow>
                  (case writeFileSync ?ps now (getData e) tree1 of
                     Inl e \<Rightarrow> Inl e
                   | Inr tree2 \<Rightarrow> Inr (tree2, cnt\<lparr>fileCount := fileCount cnt + 1\<rparr>)))
          = Inr (tree', cnt')"
      unfolding pull_entry_def Let_def r_def by (simp split: if_splits)
    then obtain tree1 where r1: "r = Inr tree1"
      and w: "writeFileSync ?ps now (getData e) tree1 = Inr tree'"
      and c: "cnt' = cnt\<lparr>fileCount := fileCount cnt + 1\<rparr>"
      by (auto split: sum.splits)
    from r1 have "tree1 = tree \<or> mkdirSync (butlast ?ps) now tree = Inr tree1"
      by (auto simp: r_def split: if_splits)
    with w c False nskip sk show ?thesis by blast
  qed
qed

lemma pull_entry_preserve:
  assumes "pull_entry force lp now e (tree, cnt) = Inr (tree', cnt')"
      and "lookup ps tree = Some (File m x)"
      and "\<not> isDirectory e \<and> segments (entryName e) = ps \<longrightarrow> \<not> force \<and> (\<exists>l. lp = Some l \<and> l < m)"
  shows "lookup ps tree' = Some (File m x)"
proof -
  from pull_entry_cases [OF assms(1)] consider
      (same) "tree' = tree"
    | (wrote) tree1 where "\<not> isDirectory e"
        "\<not> (\<not> force \<and> (\<exists>n l. lookup (segments (entryName e)) tree = Some n \<and> lp = Some l \<and> l < mtime n))"
        "tree1 = tree \<or> mkdirSync (butlast (segments (entryName e))) now tree = Inr tree1"
        "writeFileSync (segments (entryName e)) now (getData e) tree1 = Inr tree'"
    by blast
  then show ?thesis
  proof cases
    case same
    with assms(2) show ?thesis by simp
  next
    case (wrote tree1)
    have ne: "segments (entryName e) \<noteq> ps"
    proof
      assume eq: "segments (entryName e) = ps"
      with assms(3) wrote(1) have "\<not> force \<and> (\<exists>l. lp = Some l \<and> l < m)" by simp
      with wrote(2) eq assms(2) show False by auto
    qed
    from wrote(3) assms(2) have "lookup ps tree1 = Some (File m x)"
      by (auto dest: mkdirSync_other)
    from writeFileSync_other [OF wrote(4) this] ne show ?thesis by auto
  qed
qed

lemma pull_loop_preserve:
  "pull_loop force lp now entries (tree, cnt) = (ex, tree', cnt') \<Longrightarrow>
   lookup ps tree = Some (File m x) \<Longrightarrow>
   \<forall>e\<in>set entries. \<not> isDirectory e \<and> segments (entryName e) = ps
      \<longrightarrow> \<not> force \<and> (\<exists>l. lp = Some l \<and> l < m) \<Longrightarrow>
   lookup ps tree' = Some (File m x)"
proof (induction entries arbitrary: tree cnt)
  case Nil
  then show ?case by simp
next
  case (Cons a entries)
  show ?case
  proof (cases "pull_entry force lp now a (tree, cnt)")
    case (Inl e)
    with Cons.prems show ?thesis by simp
  next
    case (Inr st)
    obtain t1 c1 where st: "st = (t1, c1)" by (cases st)
    from Inr st Cons.prems(1) have rest: "pull_loop force lp now entries (t1, c1) = (ex, tree', cnt')"
      by simp
    from pull_entry_preserve [OF Inr [unfolded st] Cons.prems(2)] Cons.prems(3)
    have "lookup ps t1 = Some (File m x)" by simp
    from Cons.IH [OF rest this] Cons.prems(3) show ?thesis by simp
  qed
qed

lemma pull_loop_skipped_mono:
  "pull_loop force lp now entries (tree, cnt) = (ex, tree', cnt') \<Longrightarrow>
   set (skippedFiles cnt) \<subseteq> set (skippedFiles cnt')"
proof (induction entries arbitrary: tree cnt)
  case Nil
  then show ?case by simp
next
  case (Cons a entries)
  show ?case
  proof (cases "pull_entry force lp now a (tree, cnt)")
    case (Inl e)
    with Cons.prems show ?thesis by simp
  next
    case (Inr st)
    obtain t1 c1 where st: "st = (t1, c1)" by (cases st)
    from Inr st Cons.prems(1) have rest: "pull_loop force lp now entries (t1, c1) = (ex, tree', cnt')"
      by simp
    from pull_entry_cases [OF Inr [unfolded st]] have "set (skippedFiles cnt) \<subseteq> set (skippedFiles c1)"
      by auto
    with Cons.IH [OF rest] show ?thesis by blast
  qed
qed

lemma pull_loop_skipped_from:
  "pull_loop force lp now entries (tree, cnt) = (ex, tree', cnt') \<Longrightarrow>
   x \<in> set (skippedFiles cnt') \<Longrightarrow>
   x \<in> set (skippedFiles cnt) \<or> (\<exists>a\<in>set entries. \<not> isDirectory a \<and> entryName a = x)"
proof (induction entries arbitrary: tree cnt)
  case Nil
  then show ?case by simp
next
  case (Cons a entries)
  show ?case
  proof (cases "pull_entry force lp now a (tree, cnt)")
    case (Inl e)
    with Cons.prems show ?thesis by simp
  next
    case (Inr st)
    obtain t1 c1 where st: "st = (t1, c1)" by (cases st)
    from Inr st Cons.prems(1) have rest: "pull_loop force lp now entries (t1, c1) = (ex, tree', cnt')"
      by simp
    from pull_entry_cases [OF Inr [unfolded st]] have
      "set (skippedFiles c1) \<subseteq> set (skippedFiles cnt) \<union> (if isDirectory a then {} else {entryName a})"
      by auto
    with Cons.IH [OF rest Cons.prems(2)] show ?thesis by (auto split: if_splits)
  qed
qed

lemma pull_loop_counts:
  "pull_loop force lp now entries (tree, cnt) = (None, tree', cnt') \<Longrightarrow>
   skippedCount cnt = length (skippedFiles cnt) \<Longrightarrow>
   skippedCount cnt' = length (skippedFiles cnt')
   \<and> fileCount cnt' + skippedCount cnt'
       = fileCount cnt + skippedCount cnt + length (file_entries entries)"
proof (induction entries arbitrary: tree cnt)
  case Nil
  then show ?case by (simp add: file_entries_def)
next
  case (Cons a entries)
  show ?case
  proof (cases "pull_entry force lp now a (tree, cnt)")
    case (Inl e)
    with Cons.prems show ?thesis by simp
  next
    case (Inr st)
    obtain t1 c1 where st: "st = (t1, c1)" by (cases st)
    from Inr st Cons.prems(1) have rest: "pull_loop force lp now entries (t1, c1) = (None, tree', cnt')"
      by simp
    from pull_entry_cases [OF Inr [unfolded st]] Cons.prems(2) have
      "skippedCount c1 = length (skippedFiles c1)
       \<and> fileCount c1 + skippedCount c1
          = fileCount cnt + skippedCount cnt + (if isDirectory a then 0 else 1)"
      by auto
    with Cons.IH [OF rest] show ?thesis by (auto simp: file_entries_def)
  qed
qed

lemma pull_loop_skips:
  "pull_loop force lp now entries (tree, cnt) = (None, tree', cnt') \<Longrightarrow>
   e \<in> set entries \<Longrightarrow> \<not> isDirectory e \<Longrightarrow>
   lookup (segments (entryName e)) tree = Some (File m x) \<Longrightarrow>
   \<not> force \<Longrightarrow> lp = Some l \<Longrightarrow> l < m \<Longrightarrow>
   entryName e \<in> set (skippedFiles cnt')"
proof (induction entries arbitrary: tree cnt)
  case Nil
  then show ?case by simp
next
  case (Cons a entries)
  let ?ps = "segments (entryName e)"
  show ?case
  proof (cases "pull_entry force lp now a (tree, cnt)")
    case (Inl er)
    with Cons.prems show ?thesis by simp
  next
    case (Inr st)
    obtain t1 c1 where st: "st = (t1, c1)" by (cases st)
    from Inr st Cons.prems(1) have rest: "pull_loop force lp now entries (t1, c1) = (None, tree', cnt')"
      by simp
    have keep: "lookup ?ps t1 = Some (File m x)"
      using pull_entry_preserve [OF Inr [unfolded st] Cons.prems(4)] Cons.prems(5,6,7) by simp
    show ?thesis
    proof (cases "e = a")
      case True
      from pull_entry_cases [OF Inr [unfolded st]] True Cons.prems(3,4,5,6,7)
      have "entryName e \<in> set (skippedFiles c1)" by auto
      with pull_loop_skipped_mono [OF rest] show ?thesis by blast
    next
      case False
      with Cons.prems(2) have "e \<in> set entries" by simp
      from Cons.IH [OF rest this Cons.prems(3) keep Cons.prems(5,6,7)] show ?thesis .
    qed
  qed
qed

lemma file_names_Cons:
  "file_names (a # entries) =
     (if isDirectory a then file_names entries else segments (entryName a) # file_names entries)"
  by (simp add: file_names_def file_entries_def)

lemma file_names_mem:
  "e \<in> set entries \<Longrightarrow> \<not> isDirectory e \<Longrightarrow> segments (entryName e) \<in> set (file_names entries)"
  by (auto simp: file_names_def file_entries_def)

lemma pull_loop_writes:
  "pull_loop force lp now entries (tree, cnt) = (None, tree', cnt') \<Longrightarrow>
   distinct (file_names entries) \<Longrightarrow>
   e \<in> set entries \<Longrightarrow> \<not> isDirectory e \<Longrightarrow>
   lookup (segments (entryName e)) tree = Some (File m x) \<Longrightarrow>
   \<not> (\<not> force \<and> (\<exists>l. lp = Some l \<and> l < m)) \<Longrightarrow>
   lookup (segments (entryName e)) tree' = Some (File now (getData e))
   \<and> (entryName e \<in> set (skippedFiles cnt') \<longrightarrow> entryName e \<in> set (skippedFiles cnt))"
proof (induction entries arbitrary: tree cnt)
  case Nil
  then show ?case by simp
next
  case (Cons a entries)
  let ?ps = "segments (entryName e)"
  show ?case
  proof (cases "pull_entry force lp now a (tree, cnt)")
    case (Inl er)
    with Cons.prems show ?thesis by simp
  next
    case (Inr st)
    obtain t1 c1 where st: "st = (t1, c1)" by (cases st)
    from Inr st Cons.prems(1) have rest: "pull_loop force lp now entries (t1, c1) = (None, tree', cnt')"
      by simp
    note step = pull_entry_cases [OF Inr [unfolded st]]
    show ?thesis
    proof (cases "\<not> isDirectory a \<and> segments (entryName a) = ?ps")
      case True
      then have notin: "?ps \<notin> set (file_names entries)"
        using Cons.prems(2) by (simp add: file_names_Cons)
      from True step Cons.prems(5,6) obtain tree1 where
        t1: "tree1 = tree \<or> mkdirSync (butlast ?ps) now tree = Inr tree1"
        and w: "writeFileSync ?ps now (getData a) tree1 = Inr t1"
        and c1: "c1 = cnt\<lparr>fileCount := fileCount cnt + 1\<rparr>"
        by auto
      have ea: "e = a"
      proof (rule ccontr)
        assume "e \<noteq> a"
        with Cons.prems(3) have "e \<in> set entries" by simp
        with Cons.prems(4) notin show False by (auto dest: file_names_mem)
      qed
      from writeFileSync_lookup [OF w] ea have now1: "lookup ?ps t1 = Some (File now (getData e))"
        by simp
      have others: "\<forall>b\<in>set entries. \<not> isDirectory b \<and> segments (entryName b) = ?ps
          \<longrightarrow> \<not> force \<and> (\<exists>l. lp = Some l \<and> l < now)"
        using notin by (auto dest: file_names_mem)
      from pull_loop_preserve [OF rest now1 others]
      have fin: "lookup ?ps tree' = Some (File now (getData e))" .
      have "entryName e \<in> set (skippedFiles cnt') \<longrightarrow> entryName e \<in> set (skippedFiles cnt)"
      proof
        assume "entryName e \<in> set (skippedFiles cnt')"
        from pull_loop_skipped_from [OF rest this] c1 notin
        show "entryName e \<in> set (skippedFiles cnt)"
          by (auto dest: file_names_mem)
      qed
      with fin show ?thesis by simp
    next
      case False
      then have ne: "e \<noteq> a" using Cons.prems(4) by auto
      with Cons.prems(3) have mem: "e \<in> set entries" by simp
      have keep: "lookup ?ps t1 = Some (File m x)"
        using pull_entry_preserve [OF Inr [unfolded st] Cons.prems(5)] False by blast
      have d: "distinct (file_names entries)"
        using Cons.prems(2) by (simp add: file_names_Cons split: if_splits)
      from Cons.IH [OF rest d mem Cons.prems(4) keep Cons.prems(6)]
      have ih: "lookup ?ps tree' = Some (File now (getData e))
          \<and> (entryName e \<in> set (skippedFiles cnt') \<longrightarrow> entryName e \<in> set (skippedFiles c1))"
        .
      have "entryName e \<in> set (skippedFiles c1) \<longrightarrow> entryName e \<in> set (skippedFiles cnt)"
        using step False by auto
      with ih show ?thesis by blast
    qed
  qed
qed

lemma pull_loop_written_or_skipped:
  "pull_loop force lp now entries (tree, cnt) = (None, tree', cnt') \<Longrightarrow>
   distinct (file_names entries) \<Longrightarrow>
   e \<in> set entries \<Longrightarrow> \<not> isDirectory e \<Longrightarrow>
   entryName e \<in> set (skippedFiles cnt')
   \<or> lookup (segments (entryName e)) tree' = Some (File now (getData e))"
proof (induction entries arbitrary: tree cnt)
  case Nil
  then show ?case by simp
next
  case (Cons a entries)
  let ?ps = "segments (entryName e)"
  show ?case
  proof (cases "pull_entry force lp now a (tree, cnt)")
    case (Inl er)
    with Cons.prems show ?thesis by simp
  next
    case (Inr st)
    obtain t1 c1 where st: "st = (t1, c1)" by (cases st)
    from Inr st Cons.prems(1) have rest: "pull_loop force lp now entries (t1, c1) = (None, tree', cnt')"
      by simp
    note step = pull_entry_cases [OF Inr [unfolded st]]
    have d: "distinct (file_names entries)"
      using Cons.prems(2) by (simp add: file_names_Cons split: if_splits)
    show ?thesis
    proof (cases "e \<in> set entries")
      case True
      from Cons.IH [OF rest d True Cons.prems(4)] show ?thesis .
    next
      case False
      with Cons.prems(3) have ea: "e = a" by simp
      with Cons.prems(2,4) have notin: "?ps \<notin> set (file_names entries)"
        by (simp add: file_names_Cons)
      from step ea Cons.prems(4) consider
          (skipped) "entryName e \<in> set (skippedFiles c1)"
        | (wrote) tree1 where "writeFileSync ?ps now (getData e) tree1 = Inr t1"
        by auto
      then show ?thesis
      proof cases
        case skipped
        with pull_loop_skipped_mono [OF rest] show ?thesis by blast
      next
        case (wrote tree1)
        from writeFileSync_lookup [OF wrote] have now1: "lookup ?ps t1 = Some (File now (getData e))" .
        have others: "\<forall>b\<in>set entries. \<not> isDirectory b \<and> segments (entryName b) = ?ps
            \<longrightarrow> \<not> force \<and> (\<exists>l. lp = Some l \<and> l < now)"
          using notin by (auto dest: file_names_mem)
        from pull_loop_preserve [OF rest now1 others] show ?thesis by simp
      qed
    qed
  qed
qed

text \<open>
  With a service that serves the archive \<open>entries\<close>, a pull either ends early with the
  world untouched, or it is the extraction loop on \<open>entries\<close>, started on the tree of the
  directory with the counts at zero, the watermark of \<^verbatim>\<open>.olcli.json\<close> and the clock.
\<close>

lemma pull_with_archive:
  assumes "\<forall>st pid. fst (downloadProject srv st pid) = Returns entries"
      and "pull srv proj force w s = (res, w', s')"
  obtains (early) "w' = w" "isl res"
  | (ran) ex tree cnt where
      "pull_loop force (lastPull_of w) (clock w) entries
         (root w, \<lparr>fileCount = 0, skippedCount = 0, skippedFiles = []\<rparr>) = (ex, tree, cnt)"
      "root w' = tree" "clock w' = clock w"
      "ex \<noteq> None \<longrightarrow> isl res \<and> meta_file w' = meta_file w"
      "ex = None \<longrightarrow> res = Inr cnt \<and> lastPull_of w' = Some (clock w)"
proof (cases rule: pull_result [of srv proj force w s])
  case (early e t)
  with assms(2) show ?thesis by (intro that(1)) auto
next
  case (ran pr s2 s3 entries' ex tree cnt)
  from assms(1) ran(1) have "entries' = entries"
    by (metis fst_conv outcome.inject)
  with ran(2) have lp: "pull_loop force (lastPull_of w) (clock w) entries
         (root w, \<lparr>fileCount = 0, skippedCount = 0, skippedFiles = []\<rparr>) = (ex, tree, cnt)"
    by simp
  from ran(3) assms(2) show ?thesis
    by (intro that(2) [OF lp]) (cases ex; auto simp: lastPull_of_def)+
qed

text \<open>
  C2. Let the archive have a file entry for a path where the directory has a file.
  When that file's modification time is strictly after \<^verbatim>\<open>lastPull\<close> and
  \<^verbatim>\<open>--force\<close> is not given, pull leaves the file as it is (also when the command
  fails later), and a pull that succeeds lists the path among the skipped files, whose
  number is the skipped count. When \<^verbatim>\<open>--force\<close> is given, or there is no
  \<^verbatim>\<open>lastPull\<close>, or the file is not strictly newer, a pull that succeeds has written
  the remote content there, with the time of the write, and has not listed the path as
  skipped (the archive naming every path once).
\<close>

theorem pull_safety:
  assumes "\<forall>st pid. fst (downloadProject srv st pid) = Returns entries"
      and "pull srv proj force w s = (res, w', s')"
      and "e \<in> set entries" and "\<not> isDirectory e"
      and "lookup (segments (entryName e)) (root w) = Some (File m x)"
  shows "(\<not> force \<and> (\<exists>l. lastPull_of w = Some l \<and> l < m) \<longrightarrow>
            lookup (segments (entryName e)) (root w') = Some (File m x)
            \<and> (\<forall>cnt. res = Inr cnt \<longrightarrow>
                  entryName e \<in> set (skippedFiles cnt)
                  \<and> skippedCount cnt = length (skippedFiles cnt)))
       \<and> ((force \<or> lastPull_of w = None \<or> (\<exists>l. lastPull_of w = Some l \<and> m \<le> l))
            \<and> distinct (file_names entries) \<longrightarrow>
            (\<forall>cnt. res = Inr cnt \<longrightarrow>
               lookup (segments (entryName e)) (root w') = Some (File (clock w) (getData e))
               \<and> entryName e \<notin> set (skippedFiles cnt)))"
proof (rule pull_with_archive [OF assms(1,2)])
  assume "w' = w" "isl res"
  with assms(5) show ?thesis by auto
next
  fix ex tree cnt
  assume ran: "pull_loop force (lastPull_of w) (clock w) entries
         (root w, \<lparr>fileCount = 0, skippedCount = 0, skippedFiles = []\<rparr>) = (ex, tree, cnt)"
      "root w' = tree" "clock w' = clock w"
      "ex \<noteq> None \<longrightarrow> isl res \<and> meta_file w' = meta_file w"
      "ex = None \<longrightarrow> res = Inr cnt \<and> lastPull_of w' = Some (clock w)"
  let ?ps = "segments (entryName e)"
  have a: "\<not> force \<and> (\<exists>l. lastPull_of w = Some l \<and> l < m) \<longrightarrow>
            lookup ?ps (root w') = Some (File m x)
            \<and> (\<forall>c. res = Inr c \<longrightarrow>
                  entryName e \<in> set (skippedFiles c) \<and> skippedCount c = length (skippedFiles c))"
  proof
    assume sk: "\<not> force \<and> (\<exists>l. lastPull_of w = Some l \<and> l < m)"
    then obtain l where l: "lastPull_of w = Some l" "l < m" by blast
    from sk have all: "\<forall>b\<in>set entries. \<not> isDirectory b \<and> segments (entryName b) = ?ps
        \<longrightarrow> \<not> force \<and> (\<exists>l. lastPull_of w = Some l \<and> l < m)"
      by simp
    from pull_loop_preserve [OF ran(1) assms(5) all] ran(2)
    have keep: "lookup ?ps (root w') = Some (File m x)" by simp
    have "\<forall>c. res = Inr c \<longrightarrow>
            entryName e \<in> set (skippedFiles c) \<and> skippedCount c = length (skippedFiles c)"
    proof (intro allI impI)
      fix c assume rc: "res = Inr c"
      with ran(4,5) have ex: "ex = None" and c: "c = cnt" by (cases ex; auto)+
      from ran(1) ex have lp: "pull_loop force (lastPull_of w) (clock w) entries
         (root w, \<lparr>fileCount = 0, skippedCount = 0, skippedFiles = []\<rparr>) = (None, tree, cnt)"
        by simp
      from pull_loop_skips [OF lp assms(3,4,5) _ l] sk
      have "entryName e \<in> set (skippedFiles cnt)" by simp
      moreover from pull_loop_counts [OF lp]
      have "skippedCount cnt = length (skippedFiles cnt)" by simp
      ultimately show "entryName e \<in> set (skippedFiles c) \<and> skippedCount c = length (skippedFiles c)"
        using c by simp
    qed
    with keep show "lookup ?ps (root w') = Some (File m x)
            \<and> (\<forall>c. res = Inr c \<longrightarrow>
                  entryName e \<in> set (skippedFiles c) \<and> skippedCount c = length (skippedFiles c))"
      by simp
  qed
  have b: "(force \<or> lastPull_of w = None \<or> (\<exists>l. lastPull_of w = Some l \<and> m \<le> l))
            \<and> distinct (file_names entries) \<longrightarrow>
            (\<forall>c. res = Inr c \<longrightarrow>
               lookup ?ps (root w') = Some (File (clock w) (getData e))
               \<and> entryName e \<notin> set (skippedFiles c))"
  proof (intro impI allI)
    fix c
    assume h: "(force \<or> lastPull_of w = None \<or> (\<exists>l. lastPull_of w = Some l \<and> m \<le> l))
            \<and> distinct (file_names entries)"
      and rc: "res = Inr c"
    from rc ran(4,5) have ex: "ex = None" and c: "c = cnt" by (cases ex; auto)+
    from ran(1) ex have lp: "pull_loop force (lastPull_of w) (clock w) entries
         (root w, \<lparr>fileCount = 0, skippedCount = 0, skippedFiles = []\<rparr>) = (None, tree, cnt)"
      by simp
    from h have nsk: "\<not> (\<not> force \<and> (\<exists>l. lastPull_of w = Some l \<and> l < m))" by auto
    from h have d: "distinct (file_names entries)" by simp
    from pull_loop_writes [OF lp d assms(3,4,5) nsk] ran(2) c
    show "lookup ?ps (root w') = Some (File (clock w) (getData e))
               \<and> entryName e \<notin> set (skippedFiles c)"
      by simp
  qed
  from a b show ?thesis by blast
qed

theorem pull_safety_witness:
  "lastPull_of demo_world = Some 10
   \<and> lookup (segments ''notes.tex'') (root demo_world) = Some (File 20 ''B'')
   \<and> lookup (segments ''main.tex'') (root demo_world) = Some (File 5 ''A'')
   \<and> (let r = pull (demo_remote ''507f1f77bcf86cd700000002'' (Returns demo_archive))
                  None False demo_world ()
      in fst r = Inr \<lparr>fileCount = 1, skippedCount = 1, skippedFiles = [''notes.tex'']\<rparr>
         \<and> lookup (segments ''notes.tex'') (root (fst (snd r))) = Some (File 20 ''B'')
         \<and> lookup (segments ''main.tex'') (root (fst (snd r))) = Some (File 40 ''A2''))"
proof -
  let ?D = "demo_remote ''507f1f77bcf86cd700000002'' (Returns demo_archive)"
  let ?e1 = "\<lparr>entryName = ''main.tex'', isDirectory = False, getData = ''A2''\<rparr>"
  let ?e2 = "\<lparr>entryName = ''notes.tex'', isDirectory = False, getData = ''B2''\<rparr>"
  define r where "r = pull ?D None False demo_world ()"
  have srv: "\<forall>st pid. fst (downloadProject ?D st pid) = Returns demo_archive"
    by (simp add: demo_remote_def demo_service_def)
  have run: "pull ?D None False demo_world () = (fst r, fst (snd r), snd (snd r))"
    by (simp add: r_def prod_eq_iff)
  have lp: "lastPull_of demo_world = Some 10"
    by (simp add: lastPull_of_def demo_world_def demo_meta_def)
  have clk: "clock demo_world = 40" by (simp add: demo_world_def)
  have l2: "lookup (segments (entryName ?e2)) (root demo_world) = Some (File 20 ''B'')"
    by code_simp
  have l1: "lookup (segments (entryName ?e1)) (root demo_world) = Some (File 5 ''A'')"
    by code_simp
  have m1: "?e1 \<in> set demo_archive" "?e2 \<in> set demo_archive"
    by (simp_all add: demo_archive_def)
  have d: "distinct (file_names demo_archive)" by code_simp
  have res: "fst r = Inr \<lparr>fileCount = 1, skippedCount = 1, skippedFiles = [''notes.tex'']\<rparr>"
    unfolding r_def by code_simp
  from pull_safety [OF srv run m1(2) _ l2] lp
  have k2: "lookup (segments ''notes.tex'') (root (fst (snd r))) = Some (File 20 ''B'')"
    by simp
  from pull_safety [OF srv run m1(1) _ l1] lp d res clk
  have k1: "lookup (segments ''main.tex'') (root (fst (snd r))) = Some (File 40 ''A2'')"
    by simp
  from lp l1 l2 res k1 k2 show ?thesis unfolding r_def Let_def by simp
qed

text \<open>
  C3, amended. Let pull run twice on the same archive (every path named once), the
  second run starting from the world the first one left, later on the clock and with
  no local edit between. Every file the first run wrote is written again by the second
  run, with the same content and the new time, and is not skipped. When the first run
  skipped nothing, the second run skips nothing and writes every file of the archive.
\<close>

theorem pull_twice:
  assumes srv: "\<forall>st pid. fst (downloadProject srv st pid) = Returns entries"
      and d: "distinct (file_names entries)"
      and first: "pull srv proj force w s = (Inr c1, w1, s1)"
      and second: "pull srv proj' force' (advance dt w1) s1 = (Inr c2, w2, s2)"
      and e: "e \<in> set entries" "\<not> isDirectory e"
      and wrote: "entryName e \<notin> set (skippedFiles c1)"
  shows "lookup (segments (entryName e)) (root w1) = Some (File (clock w) (getData e))
       \<and> lookup (segments (entryName e)) (root w2) = Some (File (clock w + dt) (getData e))
       \<and> entryName e \<notin> set (skippedFiles c2)
       \<and> (skippedFiles c1 = [] \<longrightarrow>
            skippedFiles c2 = [] \<and> skippedCount c2 = 0
            \<and> fileCount c2 = length (file_entries entries))"
proof -
  let ?zero = "\<lparr>fileCount = 0, skippedCount = 0, skippedFiles = []\<rparr>"
  have run1: "pull_loop force (lastPull_of w) (clock w) entries (root w, ?zero)
                = (None, root w1, c1)
              \<and> clock w1 = clock w \<and> lastPull_of w1 = Some (clock w)"
  proof (rule pull_with_archive [OF srv first])
    assume "w1 = w" "isl (Inr c1 :: cli_error + pull_counts)"
    then show ?thesis by simp
  next
    fix ex tree cnt
    assume "pull_loop force (lastPull_of w) (clock w) entries (root w, ?zero) = (ex, tree, cnt)"
      "root w1 = tree" "clock w1 = clock w"
      "ex \<noteq> None \<longrightarrow> isl (Inr c1 :: cli_error + pull_counts) \<and> meta_file w1 = meta_file w"
      "ex = None \<longrightarrow> (Inr c1 :: cli_error + pull_counts) = Inr cnt \<and> lastPull_of w1 = Some (clock w)"
    then show ?thesis by (cases ex) auto
  qed
  have adv: "root (advance dt w1) = root w1" "clock (advance dt w1) = clock w + dt"
    "lastPull_of (advance dt w1) = Some (clock w)"
    using run1 by (simp_all add: advance_def lastPull_of_def)
  have run2: "pull_loop force' (Some (clock w)) (clock w + dt) entries (root w1, ?zero)
                = (None, root w2, c2)"
  proof (rule pull_with_archive [OF srv second])
    assume "w2 = advance dt w1" "isl (Inr c2 :: cli_error + pull_counts)"
    then show ?thesis by simp
  next
    fix ex tree cnt
    assume "pull_loop force' (lastPull_of (advance dt w1)) (clock (advance dt w1)) entries
              (root (advance dt w1), ?zero) = (ex, tree, cnt)"
      "root w2 = tree" "clock w2 = clock (advance dt w1)"
      "ex \<noteq> None \<longrightarrow> isl (Inr c2 :: cli_error + pull_counts)
          \<and> meta_file w2 = meta_file (advance dt w1)"
      "ex = None \<longrightarrow> (Inr c2 :: cli_error + pull_counts) = Inr cnt
          \<and> lastPull_of w2 = Some (clock (advance dt w1))"
    then show ?thesis unfolding adv by (cases ex) auto
  qed
  have after1: "\<And>b. b \<in> set entries \<Longrightarrow> \<not> isDirectory b
      \<Longrightarrow> entryName b \<notin> set (skippedFiles c1)
      \<Longrightarrow> lookup (segments (entryName b)) (root w1) = Some (File (clock w) (getData b))"
    using pull_loop_written_or_skipped [OF run1 [THEN conjunct1] d] by blast
  have after2: "\<And>b. b \<in> set entries \<Longrightarrow> \<not> isDirectory b
      \<Longrightarrow> entryName b \<notin> set (skippedFiles c1)
      \<Longrightarrow> lookup (segments (entryName b)) (root w2) = Some (File (clock w + dt) (getData b))
          \<and> entryName b \<notin> set (skippedFiles c2)"
  proof -
    fix b assume b: "b \<in> set entries" "\<not> isDirectory b" "entryName b \<notin> set (skippedFiles c1)"
    have ns: "\<not> (\<not> force' \<and> (\<exists>l. Some (clock w) = Some l \<and> l < clock w))" by simp
    from pull_loop_writes [OF run2 d b(1,2) after1 [OF b] ns]
    show "lookup (segments (entryName b)) (root w2) = Some (File (clock w + dt) (getData b))
          \<and> entryName b \<notin> set (skippedFiles c2)"
      by simp
  qed
  have none: "skippedFiles c1 = [] \<longrightarrow>
            skippedFiles c2 = [] \<and> skippedCount c2 = 0
            \<and> fileCount c2 = length (file_entries entries)"
  proof
    assume emp: "skippedFiles c1 = []"
    have "set (skippedFiles c2) = {}"
    proof (rule ccontr)
      assume "set (skippedFiles c2) \<noteq> {}"
      then obtain x where x: "x \<in> set (skippedFiles c2)"
        by (cases "skippedFiles c2") auto
      from pull_loop_skipped_from [OF run2 x] obtain b where
        b: "b \<in> set entries" "\<not> isDirectory b" "entryName b = x"
        by auto
      from after2 [OF b(1,2)] emp b(3) x show False by simp
    qed
    then have sk: "skippedFiles c2 = []" by simp
    from pull_loop_counts [OF run2] sk
    show "skippedFiles c2 = [] \<and> skippedCount c2 = 0
            \<and> fileCount c2 = length (file_entries entries)"
      by simp
  qed
  from after1 [OF e wrote] after2 [OF e wrote] none show ?thesis by blast
qed

theorem pull_twice_witness:
  "distinct (file_names demo_archive)
   \<and> (let D = demo_remote ''507f1f77bcf86cd700000002'' (Returns demo_archive);
          r1 = pull D (Some ''thesis'') False fresh_world ();
          r2 = pull D None False (advance 50 (fst (snd r1))) ()
      in fst r1 = Inr \<lparr>fileCount = 2, skippedCount = 0, skippedFiles = []\<rparr>
         \<and> fst r2 = Inr \<lparr>fileCount = 2, skippedCount = 0, skippedFiles = []\<rparr>
         \<and> lookup (segments ''main.tex'') (root (fst (snd r1))) = Some (File 100 ''A2'')
         \<and> lookup (segments ''main.tex'') (root (fst (snd r2))) = Some (File 150 ''A2''))"
proof -
  let ?D = "demo_remote ''507f1f77bcf86cd700000002'' (Returns demo_archive)"
  let ?e1 = "\<lparr>entryName = ''main.tex'', isDirectory = False, getData = ''A2''\<rparr>"
  define r1 where "r1 = pull ?D (Some ''thesis'') False fresh_world ()"
  define r2 where "r2 = pull ?D None False (advance 50 (fst (snd r1))) ()"
  have srv: "\<forall>st pid. fst (downloadProject ?D st pid) = Returns demo_archive"
    by (simp add: demo_remote_def demo_service_def)
  have d: "distinct (file_names demo_archive)" by code_simp
  have f1: "fst r1 = Inr \<lparr>fileCount = 2, skippedCount = 0, skippedFiles = []\<rparr>"
    unfolding r1_def by code_simp
  have f2: "fst r2 = Inr \<lparr>fileCount = 2, skippedCount = 0, skippedFiles = []\<rparr>"
    unfolding r2_def r1_def by code_simp
  have run1: "pull ?D (Some ''thesis'') False fresh_world ()
      = (Inr \<lparr>fileCount = 2, skippedCount = 0, skippedFiles = []\<rparr>, fst (snd r1), ())"
    using f1 by (simp add: r1_def prod_eq_iff)
  have run2: "pull ?D None False (advance 50 (fst (snd r1))) ()
      = (Inr \<lparr>fileCount = 2, skippedCount = 0, skippedFiles = []\<rparr>, fst (snd r2), ())"
    using f2 by (simp add: r2_def prod_eq_iff)
  have m: "?e1 \<in> set demo_archive" by (simp add: demo_archive_def)
  have clk: "clock fresh_world = 100" by (simp add: fresh_world_def)
  from pull_twice [OF srv d run1 run2 m] clk
  have "lookup (segments ''main.tex'') (root (fst (snd r1))) = Some (File 100 ''A2'')
      \<and> lookup (segments ''main.tex'') (root (fst (snd r2))) = Some (File 150 ''A2'')"
    by simp
  with d f1 f2 show ?thesis unfolding Let_def r2_def r1_def by simp
qed

text \<open>
  C3 as stated fails: after a first pull into an empty directory, a second pull with
  no edit between writes both files again and skips none.
\<close>

theorem pull_twice_counterexample:
  "fst (pull (demo_remote ''507f1f77bcf86cd700000002'' (Returns demo_archive)) None False
          (advance 50
             (fst (snd (pull (demo_remote ''507f1f77bcf86cd700000002'' (Returns demo_archive))
                          (Some ''thesis'') False fresh_world ()))))
          ())
   = Inr \<lparr>fileCount = 2, skippedCount = 0, skippedFiles = []\<rparr>"
proof -
  show ?thesis by code_simp
qed

section \<open>Properties of sync\<close>

lemma merge_entry_cases:
  assumes "merge_entry localFiles lp now (pth, rc) (tree, ls) = Inr (tree', ls')"
  shows "\<exists>tree1. (tree1 = tree \<or> mkdirSync (butlast (segments pth)) now tree = Inr tree1)
     \<and> (if keeps_local localFiles lp pth
         then tree' = tree1
              \<and> ls' = (if kept_upload localFiles lp (pth, rc) = [] then ls
                        else ls\<lparr>filesToUpload := filesToUpload ls @ kept_upload localFiles lp (pth, rc),
                                filesKeptLocal := filesKeptLocal ls @ [pth]\<rparr>)
         else writeFileSync (segments pth) now rc tree1 = Inr tree'
              \<and> ls' = ls\<lparr>filesUpdatedLocally := filesUpdatedLocally ls @ [pth]\<rparr>)"
proof -
  define r where "r = (if \<not> existsSync (butlast (segments pth)) tree
                       then mkdirSync (butlast (segments pth)) now tree else Inr tree)"
  define body where "body = (\<lambda>tree1.
             (let localFile = map_of localFiles pth
              in if (case localFile of
                       Some (lm, lc) \<Rightarrow> (case lp of Some l \<Rightarrow> l < lm | None \<Rightarrow> False)
                     | None \<Rightarrow> False)
                 then
                   (case localFile of
                      Some (lm, lc) \<Rightarrow>
                        if lc \<noteq> rc
                        then Inr (tree1, ls\<lparr>filesToUpload := filesToUpload ls @ [(pth, lc)],
                                            filesKeptLocal := filesKeptLocal ls @ [pth]\<rparr>)
                        else Inr (tree1, ls)
                    | None \<Rightarrow> Inr (tree1, ls))
                 else
                   (case writeFileSync (segments pth) now rc tree1 of
                      Inl e \<Rightarrow> Inl e
                    | Inr tree2 \<Rightarrow>
                        Inr (tree2, ls\<lparr>filesUpdatedLocally := filesUpdatedLocally ls @ [pth]\<rparr>))))"
  from assms have ev: "(case r of Inl e \<Rightarrow> Inl e | Inr tree1 \<Rightarrow> body tree1) = Inr (tree', ls')"
    unfolding merge_entry_def r_def body_def by (simp add: Let_def)
  then obtain tree1 where r1: "r = Inr tree1" and b: "body tree1 = Inr (tree', ls')"
    by (cases r) auto
  from r1 have m: "tree1 = tree \<or> mkdirSync (butlast (segments pth)) now tree = Inr tree1"
    by (auto simp: r_def split: if_splits)
  show ?thesis
  proof (cases "keeps_local localFiles lp pth")
    case True
    then obtain lm lc where lf: "map_of localFiles pth = Some (lm, lc)"
      by (auto simp: keeps_local_def split: option.splits)
    from b True lf have "tree' = tree1
        \<and> ls' = (if kept_upload localFiles lp (pth, rc) = [] then ls
                  else ls\<lparr>filesToUpload := filesToUpload ls @ kept_upload localFiles lp (pth, rc),
                          filesKeptLocal := filesKeptLocal ls @ [pth]\<rparr>)"
      unfolding body_def Let_def
      by (auto simp: keeps_local_def kept_upload_def split: option.splits if_splits)
    with m True show ?thesis by auto
  next
    case False
    from b False have "writeFileSync (segments pth) now rc tree1 = Inr tree'
        \<and> ls' = ls\<lparr>filesUpdatedLocally := filesUpdatedLocally ls @ [pth]\<rparr>"
      unfolding body_def Let_def
      by (auto simp: keeps_local_def split: option.splits if_splits sum.splits)
    with m False show ?thesis by auto
  qed
qed

lemma merge_entry_keep:
  assumes "merge_entry localFiles lp now (pth, rc) (tree, ls) = Inr (tree', ls')"
      and "keeps_local localFiles lp pth"
  shows "(tree' = tree \<or> mkdirSync (butlast (segments pth)) now tree = Inr tree')
     \<and> filesToUpload ls' = filesToUpload ls @ kept_upload localFiles lp (pth, rc)
     \<and> filesKeptLocal ls' = filesKeptLocal ls @ map fst (kept_upload localFiles lp (pth, rc))
     \<and> filesUpdatedLocally ls' = filesUpdatedLocally ls
     \<and> filesNewLocal ls' = filesNewLocal ls"
proof -
  have ku: "kept_upload localFiles lp (pth, rc) = [] \<or>
            (\<exists>lc. kept_upload localFiles lp (pth, rc) = [(pth, lc)])"
    by (auto simp: kept_upload_def split: option.splits)
  from merge_entry_cases [OF assms(1)] assms(2) obtain tree1 where
    "tree1 = tree \<or> mkdirSync (butlast (segments pth)) now tree = Inr tree1"
    "tree' = tree1"
    "ls' = (if kept_upload localFiles lp (pth, rc) = [] then ls
            else ls\<lparr>filesToUpload := filesToUpload ls @ kept_upload localFiles lp (pth, rc),
                    filesKeptLocal := filesKeptLocal ls @ [pth]\<rparr>)"
    by auto
  with ku show ?thesis by (cases "kept_upload localFiles lp (pth, rc) = []") auto
qed

lemma merge_entry_write:
  assumes "merge_entry localFiles lp now (pth, rc) (tree, ls) = Inr (tree', ls')"
      and "\<not> keeps_local localFiles lp pth"
  shows "(\<exists>tree1. (tree1 = tree \<or> mkdirSync (butlast (segments pth)) now tree = Inr tree1)
            \<and> writeFileSync (segments pth) now rc tree1 = Inr tree')
     \<and> filesToUpload ls' = filesToUpload ls
     \<and> filesKeptLocal ls' = filesKeptLocal ls
     \<and> filesUpdatedLocally ls' = filesUpdatedLocally ls @ [pth]
     \<and> filesNewLocal ls' = filesNewLocal ls"
proof -
  from merge_entry_cases [OF assms(1)] assms(2) obtain tree1 where
    "tree1 = tree \<or> mkdirSync (butlast (segments pth)) now tree = Inr tree1"
    "writeFileSync (segments pth) now rc tree1 = Inr tree'"
    "ls' = ls\<lparr>filesUpdatedLocally := filesUpdatedLocally ls @ [pth]\<rparr>"
    by auto
  then show ?thesis by auto
qed

lemma merge_entry_preserve:
  assumes "merge_entry localFiles lp now (pth, rc) (tree, ls) = Inr (tree', ls')"
      and "lookup ps tree = Some (File m x)"
      and "segments pth = ps \<longrightarrow> keeps_local localFiles lp pth"
  shows "lookup ps tree' = Some (File m x)"
proof (cases "keeps_local localFiles lp pth")
  case True
  from merge_entry_keep [OF assms(1) True] assms(2) show ?thesis
    by (auto dest: mkdirSync_other)
next
  case False
  with assms(3) have ne: "ps \<noteq> segments pth" by auto
  from merge_entry_write [OF assms(1) False] obtain tree1 where
    m: "tree1 = tree \<or> mkdirSync (butlast (segments pth)) now tree = Inr tree1"
    and w: "writeFileSync (segments pth) now rc tree1 = Inr tree'"
    by auto
  from m assms(2) have "lookup ps tree1 = Some (File m x)"
    by (auto dest: mkdirSync_other)
  from writeFileSync_other [OF w this ne] show ?thesis .
qed

lemma merge_loop_preserve:
  "merge_loop localFiles lp now rfs (tree, ls) = (ex, tree', ls') \<Longrightarrow>
   lookup ps tree = Some (File m x) \<Longrightarrow>
   \<forall>rf\<in>set rfs. segments (fst rf) = ps \<longrightarrow> keeps_local localFiles lp (fst rf) \<Longrightarrow>
   lookup ps tree' = Some (File m x)"
proof (induction rfs arbitrary: tree ls)
  case Nil
  then show ?case by simp
next
  case (Cons rf rfs)
  obtain pth rc where rf: "rf = (pth, rc)" by (cases rf)
  show ?case
  proof (cases "merge_entry localFiles lp now rf (tree, ls)")
    case (Inl e)
    with Cons.prems show ?thesis by simp
  next
    case (Inr st)
    obtain t1 l1 where st: "st = (t1, l1)" by (cases st)
    from Inr st Cons.prems(1) have rest: "merge_loop localFiles lp now rfs (t1, l1) = (ex, tree', ls')"
      by simp
    from merge_entry_preserve [OF Inr [unfolded st rf] Cons.prems(2)] Cons.prems(3) rf
    have "lookup ps t1 = Some (File m x)" by simp
    from Cons.IH [OF rest this] Cons.prems(3) show ?thesis by simp
  qed
qed

text \<open>The lists of the merge loop depend on the two maps and the watermark only.\<close>

lemma merge_loop_lists:
  "merge_loop localFiles lp now rfs (tree, ls) = (None, tree', ls') \<Longrightarrow>
   filesToUpload ls' = filesToUpload ls @ concat (map (kept_upload localFiles lp) rfs)
   \<and> filesKeptLocal ls' = filesKeptLocal ls @ map fst (concat (map (kept_upload localFiles lp) rfs))
   \<and> filesUpdatedLocally ls'
       = filesUpdatedLocally ls @ map fst (filter (\<lambda>rf. \<not> keeps_local localFiles lp (fst rf)) rfs)
   \<and> filesNewLocal ls' = filesNewLocal ls"
proof (induction rfs arbitrary: tree ls)
  case Nil
  then show ?case by simp
next
  case (Cons rf rfs)
  obtain pth rc where rf: "rf = (pth, rc)" by (cases rf)
  show ?case
  proof (cases "merge_entry localFiles lp now rf (tree, ls)")
    case (Inl e)
    with Cons.prems show ?thesis by simp
  next
    case (Inr st)
    obtain t1 l1 where st: "st = (t1, l1)" by (cases st)
    from Inr st Cons.prems(1) have rest: "merge_loop localFiles lp now rfs (t1, l1) = (None, tree', ls')"
      by simp
    have ku2: "\<not> keeps_local localFiles lp pth \<Longrightarrow> kept_upload localFiles lp (pth, rc) = []"
      by (auto simp: kept_upload_def split: option.splits)
    have "filesToUpload l1 = filesToUpload ls @ kept_upload localFiles lp (pth, rc)
       \<and> filesKeptLocal l1 = filesKeptLocal ls @ map fst (kept_upload localFiles lp (pth, rc))
       \<and> filesUpdatedLocally l1
           = filesUpdatedLocally ls @ (if keeps_local localFiles lp pth then [] else [pth])
       \<and> filesNewLocal l1 = filesNewLocal ls"
    proof (cases "keeps_local localFiles lp pth")
      case True
      from merge_entry_keep [OF Inr [unfolded st rf] True] True show ?thesis by simp
    next
      case False
      from merge_entry_write [OF Inr [unfolded st rf] False] False ku2 show ?thesis by simp
    qed
    with Cons.IH [OF rest] rf show ?thesis by auto
  qed
qed

lemma merge_loop_written:
  "merge_loop localFiles lp now rfs (tree, ls) = (None, tree', ls') \<Longrightarrow>
   distinct (map (\<lambda>rf. segments (fst rf)) rfs) \<Longrightarrow>
   (pth, rc) \<in> set rfs \<Longrightarrow> \<not> keeps_local localFiles lp pth \<Longrightarrow>
   lookup (segments pth) tree' = Some (File now rc)"
proof (induction rfs arbitrary: tree ls)
  case Nil
  then show ?case by simp
next
  case (Cons rf rfs)
  show ?case
  proof (cases "merge_entry localFiles lp now rf (tree, ls)")
    case (Inl e)
    with Cons.prems show ?thesis by simp
  next
    case (Inr st)
    obtain t1 l1 where st: "st = (t1, l1)" by (cases st)
    from Inr st Cons.prems(1) have rest: "merge_loop localFiles lp now rfs (t1, l1) = (None, tree', ls')"
      by simp
    have d: "distinct (map (\<lambda>rf. segments (fst rf)) rfs)" using Cons.prems(2) by simp
    show ?thesis
    proof (cases "(pth, rc) \<in> set rfs")
      case True
      from Cons.IH [OF rest d True Cons.prems(4)] show ?thesis .
    next
      case False
      with Cons.prems(3) have rf: "rf = (pth, rc)" by simp
      from merge_entry_write [OF Inr [unfolded st rf] Cons.prems(4)] obtain tree1 where
        "writeFileSync (segments pth) now rc tree1 = Inr t1" by auto
      from writeFileSync_lookup [OF this] have now1: "lookup (segments pth) t1 = Some (File now rc)" .
      have "\<forall>b\<in>set rfs. segments (fst b) = segments pth \<longrightarrow> keeps_local localFiles lp (fst b)"
        using Cons.prems(2) rf by (auto simp: image_iff)
      from merge_loop_preserve [OF rest now1 this] show ?thesis .
    qed
  qed
qed

lemma new_local_loop_lists:
  "filesToUpload (new_local_loop remoteFiles localFiles ls)
     = filesToUpload ls
       @ map (\<lambda>lf. (fst lf, snd (snd lf))) (filter (\<lambda>lf. map_of remoteFiles (fst lf) = None) localFiles)
   \<and> filesNewLocal (new_local_loop remoteFiles localFiles ls)
     = filesNewLocal ls @ map fst (filter (\<lambda>lf. map_of remoteFiles (fst lf) = None) localFiles)
   \<and> filesKeptLocal (new_local_loop remoteFiles localFiles ls) = filesKeptLocal ls
   \<and> filesUpdatedLocally (new_local_loop remoteFiles localFiles ls) = filesUpdatedLocally ls"
  unfolding new_local_loop_def
  by (induction localFiles arbitrary: ls) (auto split: prod.splits)

lemma sync_plan_lists:
  assumes "sync_plan w entries = (None, tree', ls')"
  shows "filesToUpload ls'
           = concat (map (kept_upload (localFiles_of w) (lastPull_of w)) (remoteFiles_of entries))
             @ map (\<lambda>lf. (fst lf, snd (snd lf)))
                 (filter (\<lambda>lf. map_of (remoteFiles_of entries) (fst lf) = None) (localFiles_of w))"
    and "filesKeptLocal ls'
           = map fst (concat (map (kept_upload (localFiles_of w) (lastPull_of w))
                                (remoteFiles_of entries)))"
    and "filesUpdatedLocally ls'
           = map fst (filter (\<lambda>rf. \<not> keeps_local (localFiles_of w) (lastPull_of w) (fst rf))
                        (remoteFiles_of entries))"
    and "filesNewLocal ls'
           = map fst (filter (\<lambda>lf. map_of (remoteFiles_of entries) (fst lf) = None)
                        (localFiles_of w))"
    and "\<exists>lsm. merge_loop (localFiles_of w) (lastPull_of w) (clock w) (remoteFiles_of entries)
            (root w, \<lparr>filesToUpload = [], filesUpdatedLocally = [],
                      filesKeptLocal = [], filesNewLocal = []\<rparr>) = (None, tree', lsm)"
proof -
  let ?init = "(root w, \<lparr>filesToUpload = [], filesUpdatedLocally = [],
                      filesKeptLocal = [], filesNewLocal = []\<rparr>)"
  obtain ex t lsm where ml:
    "merge_loop (localFiles_of w) (lastPull_of w) (clock w) (remoteFiles_of entries) ?init
       = (ex, t, lsm)"
    by (cases "merge_loop (localFiles_of w) (lastPull_of w) (clock w) (remoteFiles_of entries) ?init")
  from assms ml have ex: "ex = None" and t: "t = tree'"
    and ls': "ls' = new_local_loop (remoteFiles_of entries) (localFiles_of w) lsm"
    unfolding sync_plan_def Let_def lastPull_of_def [symmetric]
    by (auto split: option.splits)
  note m = merge_loop_lists [OF ml [unfolded ex]]
  note n = new_local_loop_lists [of "remoteFiles_of entries" "localFiles_of w" lsm]
  show "filesToUpload ls'
           = concat (map (kept_upload (localFiles_of w) (lastPull_of w)) (remoteFiles_of entries))
             @ map (\<lambda>lf. (fst lf, snd (snd lf)))
                 (filter (\<lambda>lf. map_of (remoteFiles_of entries) (fst lf) = None) (localFiles_of w))"
    using m n ls' by simp
  show "filesKeptLocal ls'
           = map fst (concat (map (kept_upload (localFiles_of w) (lastPull_of w))
                                (remoteFiles_of entries)))"
    using m n ls' by simp
  show "filesUpdatedLocally ls'
           = map fst (filter (\<lambda>rf. \<not> keeps_local (localFiles_of w) (lastPull_of w) (fst rf))
                        (remoteFiles_of entries))"
    using m n ls' by simp
  show "filesNewLocal ls'
           = map fst (filter (\<lambda>lf. map_of (remoteFiles_of entries) (fst lf) = None)
                        (localFiles_of w))"
    using m n ls' by simp
  show "\<exists>lsm. merge_loop (localFiles_of w) (lastPull_of w) (clock w) (remoteFiles_of entries)
            ?init = (None, tree', lsm)"
    using ml ex t by blast
qed

lemma sync_plan_tree:
  assumes "sync_plan w entries = (ex, tree', ls')"
  shows "\<exists>lsm. merge_loop (localFiles_of w) (lastPull_of w) (clock w) (remoteFiles_of entries)
            (root w, \<lparr>filesToUpload = [], filesUpdatedLocally = [],
                      filesKeptLocal = [], filesNewLocal = []\<rparr>) = (ex, tree', lsm)"
proof -
  let ?init = "(root w, \<lparr>filesToUpload = [], filesUpdatedLocally = [],
                      filesKeptLocal = [], filesNewLocal = []\<rparr>)"
  obtain ex0 t lsm where ml:
    "merge_loop (localFiles_of w) (lastPull_of w) (clock w) (remoteFiles_of entries) ?init
       = (ex0, t, lsm)"
    by (cases "merge_loop (localFiles_of w) (lastPull_of w) (clock w) (remoteFiles_of entries) ?init")
  from assms ml have "ex0 = ex \<and> t = tree'"
    unfolding sync_plan_def Let_def lastPull_of_def [symmetric]
    by (auto split: option.splits)
  with ml show ?thesis by blast
qed

lemma kept_upload_mem:
  "(q, c) \<in> set (kept_upload L lp rf) \<Longrightarrow>
     q = fst rf \<and> keeps_local L lp q \<and> (\<exists>lm. map_of L q = Some (lm, c)) \<and> c \<noteq> snd rf"
  by (cases "map_of L (fst rf)") (auto simp: kept_upload_def split: if_splits)

text \<open>
  C1. Let the remote files have content \<open>rc\<close> at path \<open>p\<close>, and let the scan of the
  directory (a valid tree) have found a local file at \<open>p\<close>, with a modification time
  strictly after \<^verbatim>\<open>lastPull\<close> and a content \<open>lc\<close> other than \<open>rc\<close>. Then this is the
  file at that path in the directory, and sync leaves it as it
  is, also when it fails later; and when its loops complete, the upload queue has the
  path with the local content and not with the remote content, the path is listed as
  kept and not as updated. No path is both written locally and queued for upload.
  (The remote paths are taken to name distinct files.)
\<close>

theorem sync_conflict:
  assumes plan: "sync_plan w entries = (ex, tree', ls')"
      and lp: "lastPull_of w = Some l"
      and L: "map_of (localFiles_of w) p = Some (lm, lc)"
      and valid: "valid_tree (root w)"
      and R: "map_of (remoteFiles_of entries) p = Some rc"
      and newer: "l < lm" and differs: "lc \<noteq> rc"
      and uniq: "distinct (map (\<lambda>rf. segments (fst rf)) (remoteFiles_of entries))"
  shows "lookup (segments p) (root w) = Some (File lm lc)
       \<and> lookup (segments p) tree' = Some (File lm lc)
       \<and> (ex = None \<longrightarrow>
            (p, lc) \<in> set (filesToUpload ls') \<and> (p, rc) \<notin> set (filesToUpload ls')
            \<and> p \<in> set (filesKeptLocal ls') \<and> p \<notin> set (filesUpdatedLocally ls')
            \<and> (\<forall>q. q \<in> set (filesUpdatedLocally ls') \<longrightarrow> q \<notin> fst ` set (filesToUpload ls')))"
proof -
  let ?L = "localFiles_of w" and ?R = "remoteFiles_of entries"
  have Lfile: "lookup (segments p) (root w) = Some (File lm lc)"
    using valid L by (rule localFiles_of_lookup)
  have keep: "keeps_local ?L (lastPull_of w) p"
    using L lp newer by (simp add: keeps_local_def)
  have pin: "(p, rc) \<in> set ?R" using R by (rule map_of_SomeD)
  have same: "\<forall>rf\<in>set ?R. segments (fst rf) = segments p
      \<longrightarrow> keeps_local ?L (lastPull_of w) (fst rf)"
  proof (intro ballI impI)
    fix rf assume rf: "rf \<in> set ?R" "segments (fst rf) = segments p"
    from uniq have "inj_on (\<lambda>rf. segments (fst rf)) (set ?R)" by (simp add: distinct_map)
    from inj_onD [OF this, of rf "(p, rc)"] rf pin have "rf = (p, rc)" by simp
    with keep show "keeps_local ?L (lastPull_of w) (fst rf)" by simp
  qed
  from sync_plan_tree [OF plan] obtain lsm where
    ml: "merge_loop ?L (lastPull_of w) (clock w) ?R
            (root w, \<lparr>filesToUpload = [], filesUpdatedLocally = [],
                      filesKeptLocal = [], filesNewLocal = []\<rparr>) = (ex, tree', lsm)"
    by blast
  from merge_loop_preserve [OF ml Lfile same]
  have unchanged: "lookup (segments p) tree' = Some (File lm lc)" .
  have lists: "ex = None \<longrightarrow>
            (p, lc) \<in> set (filesToUpload ls') \<and> (p, rc) \<notin> set (filesToUpload ls')
            \<and> p \<in> set (filesKeptLocal ls') \<and> p \<notin> set (filesUpdatedLocally ls')
            \<and> (\<forall>q. q \<in> set (filesUpdatedLocally ls') \<longrightarrow> q \<notin> fst ` set (filesToUpload ls'))"
  proof
    assume "ex = None"
    with plan have pl: "sync_plan w entries = (None, tree', ls')" by simp
    note ll = sync_plan_lists [OF pl]
    have ku: "kept_upload ?L (lastPull_of w) (p, rc) = [(p, lc)]"
      using keep L differs by (simp add: kept_upload_def)
    have in_kept: "(p, lc) \<in> set (concat (map (kept_upload ?L (lastPull_of w)) ?R))"
      using pin ku by (auto intro!: bexI [of _ "(p, rc)"])
    have a: "(p, lc) \<in> set (filesToUpload ls')" using in_kept by (simp add: ll(1))
    have b: "(p, rc) \<notin> set (filesToUpload ls')"
    proof
      assume "(p, rc) \<in> set (filesToUpload ls')"
      then consider rf where "rf \<in> set ?R" "(p, rc) \<in> set (kept_upload ?L (lastPull_of w) rf)"
        | "map_of ?R p = None"
        unfolding ll(1) by auto
      then show False
      proof cases
        case 1
        from kept_upload_mem [OF 1(2)] L differs show False by auto
      next
        case 2
        with R show False by simp
      qed
    qed
    from in_kept have "fst (p, lc) \<in> fst ` set (concat (map (kept_upload ?L (lastPull_of w)) ?R))"
      by (rule imageI)
    then have c: "p \<in> set (filesKeptLocal ls')"
      by (simp add: ll(2))
    have d: "p \<notin> set (filesUpdatedLocally ls')"
      using keep unfolding ll(3) by auto
    have e: "\<forall>q. q \<in> set (filesUpdatedLocally ls') \<longrightarrow> q \<notin> fst ` set (filesToUpload ls')"
    proof (intro allI impI notI)
      fix q assume u: "q \<in> set (filesUpdatedLocally ls')" and t: "q \<in> fst ` set (filesToUpload ls')"
      from u obtain rq where rq: "(q, rq) \<in> set ?R" "\<not> keeps_local ?L (lastPull_of w) q"
        unfolding ll(3) by auto
      from t obtain c where "(q, c) \<in> set (filesToUpload ls')" by auto
      then consider rf where "rf \<in> set ?R" "(q, c) \<in> set (kept_upload ?L (lastPull_of w) rf)"
        | "map_of ?R q = None"
        unfolding ll(1) by auto
      then show False
      proof cases
        case 1
        from kept_upload_mem [OF 1(2)] rq(2) show False by simp
      next
        case 2
        with rq(1) show False by (auto simp: map_of_eq_None_iff image_iff)
      qed
    qed
    from a b c d e show "(p, lc) \<in> set (filesToUpload ls') \<and> (p, rc) \<notin> set (filesToUpload ls')
            \<and> p \<in> set (filesKeptLocal ls') \<and> p \<notin> set (filesUpdatedLocally ls')
            \<and> (\<forall>q. q \<in> set (filesUpdatedLocally ls') \<longrightarrow> q \<notin> fst ` set (filesToUpload ls'))"
      by blast
  qed
  from Lfile unchanged lists show ?thesis by blast
qed

theorem sync_conflict_witness:
  "lastPull_of demo_world = Some 10
   \<and> map_of (localFiles_of demo_world) ''notes.tex'' = Some (20, ''B'')
   \<and> valid_tree (root demo_world)
   \<and> map_of (remoteFiles_of demo_archive) ''notes.tex'' = Some ''B2''
   \<and> distinct (map (\<lambda>rf. segments (fst rf)) (remoteFiles_of demo_archive))
   \<and> (let r = sync_plan demo_world demo_archive
      in fst r = None
         \<and> lookup (segments ''notes.tex'') (fst (snd r)) = Some (File 20 ''B'')
         \<and> (''notes.tex'', ''B'') \<in> set (filesToUpload (snd (snd r)))
         \<and> filesToUpload (snd (snd r)) = [(''notes.tex'', ''B''), (''figures/plot.png'', ''PNG'')]
         \<and> filesUpdatedLocally (snd (snd r)) = [''main.tex''])"
proof -
  define r where "r = sync_plan demo_world demo_archive"
  have plan: "sync_plan demo_world demo_archive = (fst r, fst (snd r), snd (snd r))"
    by (simp add: r_def)
  have lp: "lastPull_of demo_world = Some 10"
    by (simp add: lastPull_of_def demo_world_def demo_meta_def)
  have L: "map_of (localFiles_of demo_world) ''notes.tex'' = Some (20, ''B'')" by code_simp
  have valid: "valid_tree (root demo_world)" by code_simp
  have R: "map_of (remoteFiles_of demo_archive) ''notes.tex'' = Some ''B2''" by code_simp
  have uniq: "distinct (map (\<lambda>rf. segments (fst rf)) (remoteFiles_of demo_archive))"
    by code_simp
  have ex: "fst r = None" unfolding r_def by code_simp
  have q: "filesToUpload (snd (snd r)) = [(''notes.tex'', ''B''), (''figures/plot.png'', ''PNG'')]"
    unfolding r_def by code_simp
  have u: "filesUpdatedLocally (snd (snd r)) = [''main.tex'']"
    unfolding r_def by code_simp
  from sync_conflict [OF plan lp L valid R _ _ uniq] ex
  have "lookup (segments ''notes.tex'') (fst (snd r)) = Some (File 20 ''B'')
      \<and> (''notes.tex'', ''B'') \<in> set (filesToUpload (snd (snd r)))"
    by simp
  with lp L valid R uniq ex q u show ?thesis unfolding r_def Let_def by simp
qed

lemma scanLocalFiles_distinct:
  "distinct (map fst acc) \<Longrightarrow> distinct (map fst (scanLocalFiles n base acc))"
proof (induction n base acc rule: scanLocalFiles.induct)
  case (1 m c relativeBase localFiles)
  then show ?case by simp
next
  case (2 m entries relativeBase localFiles)
  let ?g = "\<lambda>(name, n) acc.
        if startsWith_dot name then acc
        else
          let relPath = (if relativeBase \<noteq> [] then relativeBase @ ''/'' @ name else name)
          in case n of
               Dir dm des \<Rightarrow> scanLocalFiles n relPath acc
             | File fm fc \<Rightarrow> AList.update relPath (fm, fc) acc"
  have "distinct (map fst (fold ?g entries localFiles))"
  proof (rule fold_invariant [where Q = "\<lambda>x. x \<in> set entries"
        and P = "\<lambda>acc. distinct (map fst acc)"])
    show "\<And>x. x \<in> set entries \<Longrightarrow> x \<in> set entries" by simp
    show "distinct (map fst localFiles)" by (rule "2.prems")
  next
    fix x :: "string \<times> node" and acc :: "(string \<times> nat \<times> string) list"
    assume x: "x \<in> set entries" and acc: "distinct (map fst acc)"
    obtain name n where xn: "x = (name, n)" by (cases x)
    show "distinct (map fst (?g x acc))"
    proof (cases "startsWith_dot name")
      case True
      with acc show ?thesis by (simp add: xn)
    next
      case False
      show ?thesis
      proof (cases n)
        case (File fm fc)
        with False acc show ?thesis by (simp add: xn Let_def distinct_update)
      next
        case (Dir dm des)
        from "2.IH" [OF x [unfolded xn] refl False refl Dir acc] False Dir show ?thesis
          by (simp add: xn Let_def)
      qed
    qed
  qed
  then show ?case by simp
qed

lemma count_list_distinct:
  "distinct xs \<Longrightarrow> x \<in> set xs \<Longrightarrow> count_list xs x = 1"
  by (induction xs) (auto simp: count_list_0_iff)

text \<open>
  C5, amended. When \<^verbatim>\<open>.olcli.json\<close> exists, every local file the scan finds whose
  path has no remote counterpart is once in the upload queue, with its content, and
  once in the list of new local files, in a sync whose loops complete.
\<close>

theorem sync_new_local:
  assumes plan: "sync_plan w entries = (None, tree', ls')"
      and bound: "meta_file w \<noteq> None"
      and lf: "(p, m, c) \<in> set (scanLocalFiles (root w) [] [])"
      and nr: "map_of (remoteFiles_of entries) p = None"
  shows "count_list (map fst (filesToUpload ls')) p = 1
       \<and> count_list (filesNewLocal ls') p = 1
       \<and> (p, c) \<in> set (filesToUpload ls')"
proof -
  let ?L = "localFiles_of w" and ?R = "remoteFiles_of entries"
  let ?new = "filter (\<lambda>lf. map_of ?R (fst lf) = None) ?L"
  have L: "?L = scanLocalFiles (root w) [] []" using bound by (simp add: localFiles_of_def)
  have dL: "distinct (map fst ?L)" unfolding L by (rule scanLocalFiles_distinct) simp
  note ll = sync_plan_lists [OF plan]
  have innew: "(p, m, c) \<in> set ?new" using lf nr L by simp
  then have pin: "p \<in> set (map fst ?new)" by (auto simp: image_iff intro!: bexI [of _ "(p, m, c)"])
  have dnew: "distinct (map fst ?new)" using dL by (rule distinct_map_filter)
  have one: "count_list (map fst ?new) p = 1" using dnew pin by (rule count_list_distinct)
  have "p \<notin> set (map fst (concat (map (kept_upload ?L (lastPull_of w)) ?R)))"
  proof
    assume "p \<in> set (map fst (concat (map (kept_upload ?L (lastPull_of w)) ?R)))"
    then obtain x rf where "rf \<in> set ?R" "(p, x) \<in> set (kept_upload ?L (lastPull_of w) rf)"
      by auto
    with kept_upload_mem [of p x ?L "lastPull_of w" rf] have "p \<in> fst ` set ?R" by auto
    with nr show False by (simp add: map_of_eq_None_iff)
  qed
  then have zero: "count_list (map fst (concat (map (kept_upload ?L (lastPull_of w)) ?R))) p = 0"
    by (simp add: count_list_0_iff)
  have keys: "map fst (filesToUpload ls')
      = map fst (concat (map (kept_upload ?L (lastPull_of w)) ?R)) @ map fst ?new"
    unfolding ll(1) by (simp add: comp_def)
  have a: "count_list (map fst (filesToUpload ls')) p = 1"
    unfolding keys using zero one by simp
  have b: "count_list (filesNewLocal ls') p = 1" unfolding ll(4) using one .
  from innew have "(\<lambda>lf. (fst lf, snd (snd lf))) (p, m, c)
      \<in> (\<lambda>lf. (fst lf, snd (snd lf))) ` set ?new"
    by (rule imageI)
  then have c: "(p, c) \<in> set (filesToUpload ls')" unfolding ll(1) by simp
  from a b c show ?thesis by simp
qed

theorem sync_new_local_witness:
  "meta_file demo_world \<noteq> None
   \<and> (''figures/plot.png'', 25, ''PNG'') \<in> set (scanLocalFiles (root demo_world) [] [])
   \<and> map_of (remoteFiles_of demo_archive) ''figures/plot.png'' = None
   \<and> (let r = sync_plan demo_world demo_archive
      in fst r = None
         \<and> count_list (map fst (filesToUpload (snd (snd r)))) ''figures/plot.png'' = 1
         \<and> count_list (filesNewLocal (snd (snd r))) ''figures/plot.png'' = 1
         \<and> filesNewLocal (snd (snd r)) = [''figures/plot.png''])"
proof -
  define r where "r = sync_plan demo_world demo_archive"
  have ex: "fst r = None" unfolding r_def by code_simp
  have plan: "sync_plan demo_world demo_archive = (None, fst (snd r), snd (snd r))"
    using ex by (simp add: r_def prod_eq_iff)
  have bound: "meta_file demo_world \<noteq> None" by (simp add: demo_world_def)
  have lf: "(''figures/plot.png'', 25, ''PNG'') \<in> set (scanLocalFiles (root demo_world) [] [])"
    by code_simp
  have nr: "map_of (remoteFiles_of demo_archive) ''figures/plot.png'' = None" by code_simp
  have nl: "filesNewLocal (snd (snd r)) = [''figures/plot.png'']" unfolding r_def by code_simp
  from sync_new_local [OF plan bound lf nr] bound lf nr ex nl show ?thesis
    unfolding r_def Let_def by simp
qed

text \<open>
  C5 as stated fails in a directory without \<^verbatim>\<open>.olcli.json\<close> (the project given by
  \<^verbatim>\<open>--project\<close>): the local file \<^verbatim>\<open>figures/plot.png\<close> has no remote counterpart, and
  sync queues nothing.
\<close>

theorem sync_new_local_counterexample:
  "(''figures/plot.png'', 25, ''PNG'') \<in> set (scanLocalFiles (root unbound_world) [] [])
   \<and> map_of (remoteFiles_of demo_archive) ''figures/plot.png'' = None
   \<and> sync (demo_remote ''507f1f77bcf86cd700000002'' (Returns demo_archive)) (Some ''thesis'')
        unbound_world ()
      = (Inr \<lparr>filesToUpload = [], filesUpdatedLocally = [''main.tex'', ''notes.tex''],
              filesKeptLocal = [], filesNewLocal = []\<rparr>,
         [],
         fst (snd (snd (sync (demo_remote ''507f1f77bcf86cd700000002'' (Returns demo_archive))
                          (Some ''thesis'') unbound_world ()))),
         ())"
proof -
  have a: "(''figures/plot.png'', 25, ''PNG'') \<in> set (scanLocalFiles (root unbound_world) [] [])"
    by code_simp
  have b: "map_of (remoteFiles_of demo_archive) ''figures/plot.png'' = None" by code_simp
  have c: "fst (sync (demo_remote ''507f1f77bcf86cd700000002'' (Returns demo_archive))
                  (Some ''thesis'') unbound_world ())
      = Inr \<lparr>filesToUpload = [], filesUpdatedLocally = [''main.tex'', ''notes.tex''],
              filesKeptLocal = [], filesNewLocal = []\<rparr>"
    by code_simp
  have d: "fst (snd (sync (demo_remote ''507f1f77bcf86cd700000002'' (Returns demo_archive))
                  (Some ''thesis'') unbound_world ())) = []"
    by code_simp
  from a b c d show ?thesis by (simp add: prod_eq_iff)
qed

lemma sync_plan_unbound:
  assumes "meta_file w = None" and "sync_plan w entries = (None, tree', ls')"
  shows "filesToUpload ls' = [] \<and> filesKeptLocal ls' = [] \<and> filesNewLocal ls' = []
       \<and> filesUpdatedLocally ls' = map fst (remoteFiles_of entries)
       \<and> (distinct (map (\<lambda>rf. segments (fst rf)) (remoteFiles_of entries)) \<longrightarrow>
            (\<forall>rf\<in>set (remoteFiles_of entries).
               lookup (segments (fst rf)) tree' = Some (File (clock w) (snd rf))))"
proof -
  have L: "localFiles_of w = []" using assms(1) by (simp add: localFiles_of_def)
  have nk: "\<And>q. \<not> keeps_local [] (lastPull_of w) q" by (simp add: keeps_local_def)
  have ku: "\<And>rf. kept_upload [] (lastPull_of w) rf = []" by (simp add: kept_upload_def)
  note ll = sync_plan_lists [OF assms(2), unfolded L]
  have lists: "filesToUpload ls' = [] \<and> filesKeptLocal ls' = [] \<and> filesNewLocal ls' = []
       \<and> filesUpdatedLocally ls' = map fst (remoteFiles_of entries)"
    using ll(1,2,3,4) by (simp add: ku nk)
  have files: "distinct (map (\<lambda>rf. segments (fst rf)) (remoteFiles_of entries)) \<longrightarrow>
            (\<forall>rf\<in>set (remoteFiles_of entries).
               lookup (segments (fst rf)) tree' = Some (File (clock w) (snd rf)))"
  proof (intro impI ballI)
    fix rf assume d: "distinct (map (\<lambda>rf. segments (fst rf)) (remoteFiles_of entries))"
      and rf: "rf \<in> set (remoteFiles_of entries)"
    from ll(5) obtain lsm where ml: "merge_loop [] (lastPull_of w) (clock w) (remoteFiles_of entries)
            (root w, \<lparr>filesToUpload = [], filesUpdatedLocally = [],
                      filesKeptLocal = [], filesNewLocal = []\<rparr>) = (None, tree', lsm)"
      by blast
    from merge_loop_written [OF ml d, of "fst rf" "snd rf"] rf nk
    show "lookup (segments (fst rf)) tree' = Some (File (clock w) (snd rf))" by simp
  qed
  from lists files show ?thesis by blast
qed

text \<open>
  C10. In a directory without \<^verbatim>\<open>.olcli.json\<close> sync scans no local file. When its
  loops complete, every remote file has been written to its path with the remote
  content and the time of the write, whatever was there before (the remote paths
  naming distinct files), the list of updated files is the list of all remote paths,
  and the upload queue and the lists of kept and of new local files are empty. The
  command sends no upload, however it ends.
\<close>

theorem sync_unbound:
  assumes "meta_file w = None"
  shows "localFiles_of w = []
       \<and> (sync_plan w entries = (None, tree', ls') \<longrightarrow>
            filesToUpload ls' = [] \<and> filesKeptLocal ls' = [] \<and> filesNewLocal ls' = []
            \<and> filesUpdatedLocally ls' = map fst (remoteFiles_of entries)
            \<and> (distinct (map (\<lambda>rf. segments (fst rf)) (remoteFiles_of entries)) \<longrightarrow>
                 (\<forall>rf\<in>set (remoteFiles_of entries).
                    lookup (segments (fst rf)) tree' = Some (File (clock w) (snd rf)))))
       \<and> (sync srv proj w s = (res, lg, w', s') \<longrightarrow> lg = [])"
proof -
  have a: "localFiles_of w = []" using assms by (simp add: localFiles_of_def)
  have c: "sync srv proj w s = (res, lg, w', s') \<longrightarrow> lg = []"
  proof
    assume run: "sync srv proj w s = (res, lg, w', s')"
    show "lg = []"
    proof (cases rule: sync_result [of srv proj w s])
      case (early e t)
      with run show ?thesis by simp
    next
      case (ran pr s2 s3 ents ex tree ls)
      show ?thesis
      proof (cases ex)
        case (Some e)
        with ran(3) run show ?thesis by simp
      next
        case None
        from sync_plan_unbound [OF assms ran(2) [unfolded None]]
        have "filesToUpload ls = []" by simp
        with ran(3) run None show ?thesis by simp
      qed
    qed
  qed
  from a c sync_plan_unbound [OF assms, of entries tree' ls'] show ?thesis by blast
qed

theorem sync_unbound_witness:
  "meta_file unbound_world = None
   \<and> lookup (segments ''notes.tex'') (root unbound_world) = Some (File 20 ''B'')
   \<and> distinct (map (\<lambda>rf. segments (fst rf)) (remoteFiles_of demo_archive))
   \<and> (let r = sync_plan unbound_world demo_archive
      in fst r = None
         \<and> filesToUpload (snd (snd r)) = []
         \<and> filesUpdatedLocally (snd (snd r)) = [''main.tex'', ''notes.tex'']
         \<and> lookup (segments ''notes.tex'') (fst (snd r)) = Some (File 40 ''B2''))
   \<and> fst (snd (sync (demo_remote ''507f1f77bcf86cd700000002'' (Returns demo_archive))
                  (Some ''thesis'') unbound_world ())) = []"
proof -
  let ?D = "demo_remote ''507f1f77bcf86cd700000002'' (Returns demo_archive)"
  define r where "r = sync_plan unbound_world demo_archive"
  define q where "q = sync ?D (Some ''thesis'') unbound_world ()"
  have m: "meta_file unbound_world = None" by (simp add: unbound_world_def)
  have clk: "clock unbound_world = 40" by (simp add: unbound_world_def)
  have before: "lookup (segments ''notes.tex'') (root unbound_world) = Some (File 20 ''B'')"
    by code_simp
  have uniq: "distinct (map (\<lambda>rf. segments (fst rf)) (remoteFiles_of demo_archive))"
    by code_simp
  have ex: "fst r = None" unfolding r_def by code_simp
  have plan: "sync_plan unbound_world demo_archive = (None, fst (snd r), snd (snd r))"
    using ex by (simp add: r_def prod_eq_iff)
  have run: "sync ?D (Some ''thesis'') unbound_world ()
      = (fst q, fst (snd q), fst (snd (snd q)), snd (snd (snd q)))"
    by (simp add: q_def prod_eq_iff)
  have rfs: "remoteFiles_of demo_archive = [(''main.tex'', ''A2''), (''notes.tex'', ''B2'')]"
    by code_simp
  note inst = sync_unbound [OF m, where entries = demo_archive and tree' = "fst (snd r)"
      and ls' = "snd (snd r)" and srv = "?D" and proj = "Some ''thesis''" and s = "()"
      and res = "fst q" and lg = "fst (snd q)" and w' = "fst (snd (snd q))"
      and s' = "snd (snd (snd q))"]
  from inst plan uniq rfs clk have
    "filesToUpload (snd (snd r)) = []
     \<and> filesUpdatedLocally (snd (snd r)) = [''main.tex'', ''notes.tex'']
     \<and> lookup (segments ''notes.tex'') (fst (snd r)) = Some (File 40 ''B2'')"
    by simp
  moreover from inst run have "fst (snd q) = []" by blast
  ultimately show ?thesis using m before uniq ex unfolding r_def q_def Let_def by simp
qed

end
